theory Spec2Isabelle
  imports Main "HOL-Library.Monad_Syntax"
begin

section \<open>The indexed d-ary min-heap of \<^verbatim>\<open>min-indexed-d-heap.ts\<close>\<close>

text \<open>
  The class \<^verbatim>\<open>MinIndexedDHeap<T>\<close> is embedded as a record of its fields and one HOL
  function per method, each taking the object state and returning the state it leaves.

  \<^item> A JavaScript array is a finite map from indices to elements: reading an index that
    was never written yields \<^verbatim>\<open>undefined\<close>, writing any index stores there. The five
    arrays are therefore maps \<open>int \<rightharpoonup> _\<close>, with \<open>None\<close> for \<^verbatim>\<open>undefined\<close>;
    \<^verbatim>\<open>new Array(n)\<close> is the empty map.
  \<^item> Numbers are unbounded integers (keys, slots, degree and capacity are integral in
    every call of the repository); the engine's limit on array lengths and the exhaustion
    of memory are not represented. The comparator returns an integer: the code only
    compares its result with 0.
  \<^item> An element of \<^verbatim>\<open>values\<close> has type \<^verbatim>\<open>T | null\<close>: \<open>'a option\<close>, with \<open>None\<close> for
    \<^verbatim>\<open>null\<close>. A value handed to \<^verbatim>\<open>insert\<close>, \<^verbatim>\<open>update\<close>, \<^verbatim>\<open>decrease\<close> or \<^verbatim>\<open>increase\<close>
    is checked against \<^verbatim>\<open>null\<close> at run time and so has the same type.
  \<^item> A thrown \<^verbatim>\<open>Error\<close> is a value of type \<open>error\<close>; a method that mutates returns the
    pair of its outcome (\<open>Inl\<close> the error, \<open>Inr\<close> the returned value) and the state at
    that moment.
  \<^item> TypeScript's postfix \<^verbatim>\<open>!\<close> is erased at run time. Where the code needs a number
    or a \<^verbatim>\<open>T\<close> from such a read (as an index, as an operand, as an argument of the
    comparator) and the array holds \<^verbatim>\<open>undefined\<close> or \<^verbatim>\<open>null\<close> there, the model has no
    result: the enclosing function is \<open>None\<close>. The \<^verbatim>\<open>while\<close> loops of \<^verbatim>\<open>swim\<close> and
    \<^verbatim>\<open>sink\<close> and the recursion of \<^verbatim>\<open>isMinHeapAt\<close> are partial functions in the option
    monad, so \<open>None\<close> is also the value of a run that does not return. That a method
    returns is always a theorem of the form \<open>f h x = Some r\<close>.
\<close>

datatype error =
  InvalidCapacity | KeyOutOfBounds | DuplicateKey | UnknownKey | NullValue | EmptyQueue

record 'a heap =
  sz :: int
  N :: int
  D :: int
  child :: "int \<rightharpoonup> int"
  parent :: "int \<rightharpoonup> int"
  pm :: "int \<rightharpoonup> int"
  im :: "int \<rightharpoonup> int"
  values_h :: "int \<rightharpoonup> 'a option"
  compare :: "'a \<Rightarrow> 'a \<Rightarrow> int"

subsection \<open>Construction\<close>

text \<open>The body of the constructor's \<^verbatim>\<open>for\<close> loop, and the loop from index \<open>i\<close>.
  \<^verbatim>\<open>Math.floor((i - 1) / D)\<close> is \<open>(i - 1) div D\<close>: the degree is at least 2 and
  \<open>div\<close> on \<open>int\<close> rounds down.\<close>

definition initSlot :: "'a heap \<Rightarrow> int \<Rightarrow> 'a heap" where
  "initSlot h i =
     h\<lparr>parent := (parent h)(i \<mapsto> (i - 1) div D h),
       child := (child h)(i \<mapsto> i * D h + 1),
       pm := (pm h)(i \<mapsto> - 1),
       im := (im h)(i \<mapsto> - 1),
       values_h := (values_h h)(i \<mapsto> None)\<rparr>"

function initLoop :: "'a heap \<Rightarrow> int \<Rightarrow> 'a heap" where
  "initLoop h i = (if i < N h then initLoop (initSlot h i) (i + 1) else h)"
  by pat_completeness auto
termination
  by (relation "measure (\<lambda>(h, i). nat (N h - i))") (auto simp: initSlot_def)

declare initLoop.simps [simp del]

definition constructor :: "int \<Rightarrow> int \<Rightarrow> ('a \<Rightarrow> 'a \<Rightarrow> int) \<Rightarrow> error + 'a heap" where
  "constructor degree maxSize comparator =
     (if maxSize \<le> 0 then Inl InvalidCapacity
      else
        let d = max 2 degree;
            n = max (d + 1) maxSize
        in Inr (initLoop
             \<lparr>sz = 0, N = n, D = d, child = Map.empty, parent = Map.empty,
              pm = Map.empty, im = Map.empty, values_h = Map.empty,
              compare = comparator\<rparr> 0))"

text \<open>\<^verbatim>\<open>MinIndexedBinaryHeap\<close> overrides nothing; its constructor is \<^verbatim>\<open>super(2, maxSize, comparator)\<close>.\<close>

definition constructorBinary :: "int \<Rightarrow> ('a \<Rightarrow> 'a \<Rightarrow> int) \<Rightarrow> error + 'a heap" where
  "constructorBinary maxSize comparator = constructor 2 maxSize comparator"

subsection \<open>Validation helpers and queries\<close>

definition size_h :: "'a heap \<Rightarrow> int" where
  "size_h h = sz h"

definition isEmpty :: "'a heap \<Rightarrow> bool" where
  "isEmpty h = (sz h = 0)"

definition keyInBoundsOrThrow :: "'a heap \<Rightarrow> int \<Rightarrow> error + unit" where
  "keyInBoundsOrThrow h ki = (if ki < 0 \<or> ki \<ge> N h then Inl KeyOutOfBounds else Inr ())"

text \<open>\<^verbatim>\<open>this.pm[ki] !== -1\<close> is true of \<^verbatim>\<open>undefined\<close> too.\<close>

definition contains :: "'a heap \<Rightarrow> int \<Rightarrow> error + bool" where
  "contains h ki =
     (case keyInBoundsOrThrow h ki of
        Inl e \<Rightarrow> Inl e
      | Inr _ \<Rightarrow> Inr (pm h ki \<noteq> Some (- 1)))"

definition isNotEmptyOrThrow :: "'a heap \<Rightarrow> error + unit" where
  "isNotEmptyOrThrow h = (if isEmpty h then Inl EmptyQueue else Inr ())"

definition keyExistsOrThrow :: "'a heap \<Rightarrow> int \<Rightarrow> error + unit" where
  "keyExistsOrThrow h ki =
     (case contains h ki of
        Inl e \<Rightarrow> Inl e
      | Inr b \<Rightarrow> if \<not> b then Inl UnknownKey else Inr ())"

definition valueNotNullOrThrow :: "'a option \<Rightarrow> error + unit" where
  "valueNotNullOrThrow v = (if v = None then Inl NullValue else Inr ())"

definition keyExistsAndValueNotNullOrThrow :: "'a heap \<Rightarrow> int \<Rightarrow> 'a option \<Rightarrow> error + unit" where
  "keyExistsAndValueNotNullOrThrow h ki v =
     (case keyExistsOrThrow h ki of
        Inl e \<Rightarrow> Inl e
      | Inr _ \<Rightarrow> valueNotNullOrThrow v)"

text \<open>The read \<^verbatim>\<open>this.values[k]!\<close> where a \<^verbatim>\<open>T\<close> is needed.\<close>

definition valueAt :: "'a heap \<Rightarrow> int \<Rightarrow> 'a option" where
  "valueAt h k = (case values_h h k of Some (Some v) \<Rightarrow> Some v | _ \<Rightarrow> None)"

definition peekMinKeyIndex :: "'a heap \<Rightarrow> error + int option" where
  "peekMinKeyIndex h =
     (case isNotEmptyOrThrow h of
        Inl e \<Rightarrow> Inl e
      | Inr _ \<Rightarrow> Inr (im h 0))"

definition peekMinValue :: "'a heap \<Rightarrow> (error + 'a) option" where
  "peekMinValue h =
     (case isNotEmptyOrThrow h of
        Inl e \<Rightarrow> Some (Inl e)
      | Inr _ \<Rightarrow> do { k \<leftarrow> im h 0; v \<leftarrow> valueAt h k; Some (Inr v) })"

definition valueOf :: "'a heap \<Rightarrow> int \<Rightarrow> (error + 'a) option" where
  "valueOf h ki =
     (case keyExistsOrThrow h ki of
        Inl e \<Rightarrow> Some (Inl e)
      | Inr _ \<Rightarrow> do { v \<leftarrow> valueAt h ki; Some (Inr v) })"

subsection \<open>Heap helpers\<close>

definition lessValue :: "'a heap \<Rightarrow> 'a \<Rightarrow> 'a \<Rightarrow> bool" where
  "lessValue h a b = (compare h a b < 0)"

definition less_h :: "'a heap \<Rightarrow> int \<Rightarrow> int \<Rightarrow> bool option" where
  "less_h h i j =
     do { ki \<leftarrow> im h i; a \<leftarrow> valueAt h ki;
          kj \<leftarrow> im h j; b \<leftarrow> valueAt h kj;
          Some (compare h a b < 0) }"

definition swap_h :: "'a heap \<Rightarrow> int \<Rightarrow> int \<Rightarrow> 'a heap option" where
  "swap_h h i j =
     do { kj \<leftarrow> im h j;
          let h1 = h\<lparr>pm := (pm h)(kj \<mapsto> i)\<rparr>;
          ki \<leftarrow> im h1 i;
          let h2 = h1\<lparr>pm := (pm h1)(ki \<mapsto> j)\<rparr>;
          tmp \<leftarrow> im h2 i;
          x \<leftarrow> im h2 j;
          let h3 = h2\<lparr>im := (im h2)(i \<mapsto> x)\<rparr>;
          Some (h3\<lparr>im := (im h3)(j \<mapsto> tmp)\<rparr>) }"

text \<open>The \<^verbatim>\<open>for\<close> loop of \<^verbatim>\<open>minChild\<close>; \<open>i\<close> and \<open>index\<close> are its two mutable locals.\<close>

function minChildLoop :: "'a heap \<Rightarrow> int \<Rightarrow> int \<Rightarrow> int \<Rightarrow> int \<Rightarrow> int option" where
  "minChildLoop h to j i index =
     (if j < to then
        (case less_h h j i of
           None \<Rightarrow> None
         | Some b \<Rightarrow> if b then minChildLoop h to (j + 1) j j
                     else minChildLoop h to (j + 1) i index)
      else Some index)"
  by pat_completeness auto
termination
  by (relation "measure (\<lambda>(h, to, j, i, index). nat (to - j))") auto

declare minChildLoop.simps [simp del]

definition minChild :: "'a heap \<Rightarrow> int \<Rightarrow> int option" where
  "minChild h i =
     do { from \<leftarrow> child h i;
          minChildLoop h (min (sz h) (from + D h)) from i (- 1) }"

partial_function (option) sink :: "'a heap \<Rightarrow> int \<Rightarrow> 'a heap option" where
  "sink h i =
     do { j \<leftarrow> minChild h i;
          if j \<noteq> - 1 then do { h' \<leftarrow> swap_h h i j; sink h' j }
          else Some h }"

declare sink.simps [code]

text \<open>\<^verbatim>\<open>while (i > 0 && this.less(i, this.parent[i]!))\<close>: at the root nothing is read.\<close>

partial_function (option) swim :: "'a heap \<Rightarrow> int \<Rightarrow> 'a heap option" where
  "swim h i =
     (if i > 0 then
        do { p \<leftarrow> parent h i;
             b \<leftarrow> less_h h i p;
             if b then
               do { p1 \<leftarrow> parent h i;
                    h' \<leftarrow> swap_h h i p1;
                    p2 \<leftarrow> parent h' i;
                    swim h' p2 }
             else Some h }
      else Some h)"

declare swim.simps [code]

subsection \<open>Mutating operations\<close>

definition insert_h :: "'a heap \<Rightarrow> int \<Rightarrow> 'a option \<Rightarrow> ((error + unit) \<times> 'a heap) option" where
  "insert_h h ki v =
     (case contains h ki of
        Inl e \<Rightarrow> Some (Inl e, h)
      | Inr b \<Rightarrow>
          if b then Some (Inl DuplicateKey, h)
          else
            (case valueNotNullOrThrow v of
               Inl e \<Rightarrow> Some (Inl e, h)
             | Inr _ \<Rightarrow>
                 let h1 = h\<lparr>pm := (pm h)(ki \<mapsto> sz h)\<rparr>;
                     h2 = h1\<lparr>im := (im h1)(sz h1 \<mapsto> ki)\<rparr>;
                     h3 = h2\<lparr>values_h := (values_h h2)(ki \<mapsto> v)\<rparr>;
                     i = sz h3;
                     h4 = h3\<lparr>sz := sz h3 + 1\<rparr>
                 in do { h5 \<leftarrow> swim h4 i; Some (Inr (), h5) }))"

definition delete_h :: "'a heap \<Rightarrow> int \<Rightarrow> ((error + 'a) \<times> 'a heap) option" where
  "delete_h h ki =
     (case keyExistsOrThrow h ki of
        Inl e \<Rightarrow> Some (Inl e, h)
      | Inr _ \<Rightarrow>
          do { i \<leftarrow> pm h ki;
               let h1 = h\<lparr>sz := sz h - 1\<rparr>;
               h2 \<leftarrow> swap_h h1 i (sz h1);
               h3 \<leftarrow> sink h2 i;
               h4 \<leftarrow> swim h3 i;
               v \<leftarrow> valueAt h4 ki;
               let h5 = h4\<lparr>values_h := (values_h h4)(ki \<mapsto> None)\<rparr>;
               let h6 = h5\<lparr>pm := (pm h5)(ki \<mapsto> - 1)\<rparr>;
               let h7 = h6\<lparr>im := (im h6)(sz h6 \<mapsto> - 1)\<rparr>;
               Some (Inr v, h7) })"

definition update_h :: "'a heap \<Rightarrow> int \<Rightarrow> 'a option \<Rightarrow> ((error + 'a) \<times> 'a heap) option" where
  "update_h h ki v =
     (case keyExistsAndValueNotNullOrThrow h ki v of
        Inl e \<Rightarrow> Some (Inl e, h)
      | Inr _ \<Rightarrow>
          do { i \<leftarrow> pm h ki;
               oldValue \<leftarrow> valueAt h ki;
               let h1 = h\<lparr>values_h := (values_h h)(ki \<mapsto> v)\<rparr>;
               h2 \<leftarrow> sink h1 i;
               h3 \<leftarrow> swim h2 i;
               Some (Inr oldValue, h3) })"

definition decrease :: "'a heap \<Rightarrow> int \<Rightarrow> 'a option \<Rightarrow> ((error + unit) \<times> 'a heap) option" where
  "decrease h ki v =
     (case keyExistsAndValueNotNullOrThrow h ki v of
        Inl e \<Rightarrow> Some (Inl e, h)
      | Inr _ \<Rightarrow>
          do { a \<leftarrow> v;
               b \<leftarrow> valueAt h ki;
               if lessValue h a b then
                 do { let h1 = h\<lparr>values_h := (values_h h)(ki \<mapsto> v)\<rparr>;
                      i \<leftarrow> pm h1 ki;
                      h2 \<leftarrow> swim h1 i;
                      Some (Inr (), h2) }
               else Some (Inr (), h) })"

definition increase :: "'a heap \<Rightarrow> int \<Rightarrow> 'a option \<Rightarrow> ((error + unit) \<times> 'a heap) option" where
  "increase h ki v =
     (case keyExistsAndValueNotNullOrThrow h ki v of
        Inl e \<Rightarrow> Some (Inl e, h)
      | Inr _ \<Rightarrow>
          do { a \<leftarrow> valueAt h ki;
               b \<leftarrow> v;
               if lessValue h a b then
                 do { let h1 = h\<lparr>values_h := (values_h h)(ki \<mapsto> v)\<rparr>;
                      i \<leftarrow> pm h1 ki;
                      h2 \<leftarrow> sink h1 i;
                      Some (Inr (), h2) }
               else Some (Inr (), h) })"

text \<open>\<^verbatim>\<open>pollMinKeyIndex\<close> and \<^verbatim>\<open>pollMinValue\<close> peek, then delete the key in slot 0. Both
  hand \<^verbatim>\<open>this.im[0]!\<close> to \<^verbatim>\<open>delete\<close>, which needs a number.\<close>

definition pollMinKeyIndex :: "'a heap \<Rightarrow> ((error + int) \<times> 'a heap) option" where
  "pollMinKeyIndex h =
     (case peekMinKeyIndex h of
        Inl e \<Rightarrow> Some (Inl e, h)
      | Inr k \<Rightarrow>
          do { minKi \<leftarrow> k;
               r \<leftarrow> delete_h h minKi;
               case r of
                 (Inl e, h') \<Rightarrow> Some (Inl e, h')
               | (Inr _, h') \<Rightarrow> Some (Inr minKi, h') })"

definition pollMinValue :: "'a heap \<Rightarrow> ((error + 'a) \<times> 'a heap) option" where
  "pollMinValue h =
     do { r \<leftarrow> peekMinValue h;
          case r of
            Inl e \<Rightarrow> Some (Inl e, h)
          | Inr minValue \<Rightarrow>
              (case peekMinKeyIndex h of
                 Inl e \<Rightarrow> Some (Inl e, h)
               | Inr k \<Rightarrow>
                   do { ki \<leftarrow> k;
                        r' \<leftarrow> delete_h h ki;
                        case r' of
                          (Inl e, h') \<Rightarrow> Some (Inl e, h')
                        | (Inr _, h') \<Rightarrow> Some (Inr minValue, h') }) }"

subsection \<open>The diagnostic check\<close>

text \<open>\<open>isMinHeapFrom h i j to\<close> is the \<^verbatim>\<open>for\<close> loop of \<^verbatim>\<open>isMinHeapAt(i)\<close> from child slot
  \<open>j\<close> up to \<open>to\<close>; the recursive call \<^verbatim>\<open>isMinHeapAt(j)\<close> is that loop started at the first
  child of \<open>j\<close>.\<close>

partial_function (option) isMinHeapFrom :: "'a heap \<Rightarrow> int \<Rightarrow> int \<Rightarrow> int \<Rightarrow> bool option" where
  "isMinHeapFrom h i j to =
     (if j < to then
        do { b \<leftarrow> less_h h i j;
             if \<not> b then Some False
             else
               do { from \<leftarrow> child h j;
                    r \<leftarrow> isMinHeapFrom h j from (min (sz h) (from + D h));
                    if \<not> r then Some False
                    else isMinHeapFrom h i (j + 1) to } }
      else Some True)"

declare isMinHeapFrom.simps [code]

definition isMinHeapAt :: "'a heap \<Rightarrow> int \<Rightarrow> bool option" where
  "isMinHeapAt h i =
     do { from \<leftarrow> child h i;
          isMinHeapFrom h i from (min (sz h) (from + D h)) }"

definition isMinHeap :: "'a heap \<Rightarrow> bool option" where
  "isMinHeap h = isMinHeapAt h 0"

section \<open>Specification vocabulary\<close>

subsection \<open>The comparator contract\<close>

text \<open>The heap is handed a comparator \<^verbatim>\<open>(a: T, b: T) => number\<close> and only ever looks at the
  sign of its result. The specification makes it the caller's duty that the comparator is
  consistent with a total order. Stated on the sign: swapping the arguments flips a negative
  result into a positive one, and \<open>\<le>\<close> (a non-positive result) is transitive.\<close>

definition consistent :: "('a \<Rightarrow> 'a \<Rightarrow> int) \<Rightarrow> bool" where
  "consistent c \<longleftrightarrow>
     (\<forall>a b. (c a b < 0) = (0 < c b a)) \<and>
     (\<forall>a b x. c a b \<le> 0 \<and> c b x \<le> 0 \<longrightarrow> c a x \<le> 0)"

subsection \<open>Slots, values and the heap order\<close>

text \<open>\<^verbatim>\<open>value(inverse[s])\<close>: the value stored for the key that occupies slot \<open>s\<close>, read as
  \<^verbatim>\<open>less\<close> reads it.\<close>

definition slotValue :: "'a heap \<Rightarrow> int \<Rightarrow> 'a option" where
  "slotValue h s = do { k \<leftarrow> im h s; valueAt h k }"

text \<open>Slot \<open>p\<close> holds a value that is less than or equal to the one in slot \<open>c\<close> under
  the heap's comparator.\<close>

definition lesseq :: "'a heap \<Rightarrow> int \<Rightarrow> int \<Rightarrow> bool" where
  "lesseq h p c \<longleftrightarrow>
     (\<exists>a b. slotValue h p = Some a \<and> slotValue h c = Some b \<and> compare h a b \<le> 0)"

subsection \<open>The structural invariant\<close>

text \<open>The degree and capacity bounds, and the two precomputed tables.\<close>

definition topology :: "'a heap \<Rightarrow> bool" where
  "topology h \<longleftrightarrow>
     2 \<le> D h \<and> D h + 1 \<le> N h \<and>
     (\<forall>i. 0 \<le> i \<and> i < N h \<longrightarrow>
        parent h i = Some ((i - 1) div D h) \<and> child h i = Some (i * D h + 1))"

text \<open>Every slot below \<open>sz\<close> holds an in-range key whose position is that slot and whose
  value is set.\<close>

definition occupied :: "'a heap \<Rightarrow> bool" where
  "occupied h \<longleftrightarrow>
     0 \<le> sz h \<and> sz h \<le> N h \<and>
     (\<forall>s. 0 \<le> s \<and> s < sz h \<longrightarrow>
        (\<exists>k v. im h s = Some k \<and> 0 \<le> k \<and> k < N h \<and> pm h k = Some s \<and>
               values_h h k = Some (Some v)))"

text \<open>The keys found in the occupied slots.\<close>

definition keys :: "'a heap \<Rightarrow> int set" where
  "keys h = {k. \<exists>s. 0 \<le> s \<and> s < sz h \<and> im h s = Some k}"

text \<open>Every slot from \<open>sz\<close> on holds the sentinel, and every key that occupies no slot has
  position \<open>-1\<close> and value \<^verbatim>\<open>null\<close>.\<close>

definition vacant :: "'a heap \<Rightarrow> bool" where
  "vacant h \<longleftrightarrow>
     (\<forall>s. sz h \<le> s \<and> s < N h \<longrightarrow> im h s = Some (- 1)) \<and>
     (\<forall>k. 0 \<le> k \<and> k < N h \<and> k \<notin> keys h \<longrightarrow>
        pm h k = Some (- 1) \<and> values_h h k = Some None)"

text \<open>What \<^verbatim>\<open>swap\<close>, \<^verbatim>\<open>sink\<close> and \<^verbatim>\<open>swim\<close> leave alone: everything but the arrangement of
  the occupying keys among the occupied slots.\<close>

definition frame :: "'a heap \<Rightarrow> 'a heap \<Rightarrow> bool" where
  "frame h h' \<longleftrightarrow>
     sz h' = sz h \<and> N h' = N h \<and> D h' = D h \<and> child h' = child h \<and>
     parent h' = parent h \<and> values_h h' = values_h h \<and> compare h' = compare h \<and>
     (\<forall>s. \<not> (0 \<le> s \<and> s < sz h) \<longrightarrow> im h' s = im h s) \<and>
     (\<forall>k. k \<notin> keys h \<longrightarrow> pm h' k = pm h k) \<and>
     keys h' = keys h"

text \<open>The parent slot by arithmetic, and the heap order stated child by child: every
  slot but the root is at least its parent.\<close>

definition parentOf :: "'a heap \<Rightarrow> int \<Rightarrow> int" where
  "parentOf h c = (c - 1) div D h"

definition heapOrder :: "'a heap \<Rightarrow> bool" where
  "heapOrder h \<longleftrightarrow> (\<forall>c. 0 < c \<and> c < sz h \<longrightarrow> lesseq h (parentOf h c) c)"

text \<open>While an operation runs, the order may be broken around one slot \<open>i\<close>: every edge
  that does not touch \<open>i\<close> is in order, and the children of \<open>i\<close> are at least the parent
  of \<open>i\<close>. \<open>childrenOk\<close> adds the edges from \<open>i\<close> to its children.\<close>

definition exceptAt :: "'a heap \<Rightarrow> int \<Rightarrow> bool" where
  "exceptAt h i \<longleftrightarrow>
     (\<forall>c. 0 < c \<and> c < sz h \<and> c \<noteq> i \<and> parentOf h c \<noteq> i \<longrightarrow> lesseq h (parentOf h c) c) \<and>
     (\<forall>c. 0 < c \<and> c < sz h \<and> parentOf h c = i \<and> 0 < i \<longrightarrow> lesseq h (parentOf h i) c)"

definition childrenOk :: "'a heap \<Rightarrow> int \<Rightarrow> bool" where
  "childrenOk h i \<longleftrightarrow> (\<forall>c. 0 < c \<and> c < sz h \<and> parentOf h c = i \<longrightarrow> lesseq h i c)"

text \<open>The invariant of the object between two public calls.\<close>

definition heap_inv :: "'a heap \<Rightarrow> bool" where
  "heap_inv h \<longleftrightarrow> topology h \<and> occupied h \<and> vacant h \<and> heapOrder h"

text \<open>The state inside \<^verbatim>\<open>delete\<close> after \<^verbatim>\<open>swap(i, --sz)\<close>: the key being removed sits in
  slot \<open>sz\<close>, just outside the occupied range, still with its position and value.\<close>

definition detached :: "'a heap \<Rightarrow> int \<Rightarrow> bool" where
  "detached h ki \<longleftrightarrow>
     0 \<le> ki \<and> ki < N h \<and> sz h < N h \<and> im h (sz h) = Some ki \<and> ki \<notin> keys h \<and>
     (\<forall>s. sz h < s \<and> s < N h \<longrightarrow> im h s = Some (- 1)) \<and>
     (\<forall>k. 0 \<le> k \<and> k < N h \<and> k \<notin> keys h \<and> k \<noteq> ki \<longrightarrow>
        pm h k = Some (- 1) \<and> values_h h k = Some None)"

subsection \<open>Calls, reachable states and sample heaps\<close>

text \<open>The comparator of the repository's tests, \<^verbatim>\<open>(a, b) => a - b\<close> on numbers.\<close>

definition ascending :: "int \<Rightarrow> int \<Rightarrow> int" where
  "ascending a b = a - b"

text \<open>A function that breaks the contract: it calls every value less than every other.\<close>

definition always_less :: "int \<Rightarrow> int \<Rightarrow> int" where
  "always_less a b = - 1"

text \<open>One call of a public method, what it returns, and its effect on the state.
  \<^verbatim>\<open>toString\<close> is left out: it only formats \<^verbatim>\<open>im.slice(0, sz)\<close>.\<close>

datatype 'a call =
  Insert int "'a option" | Delete int | Update int "'a option"
  | Decrease int "'a option" | Increase int "'a option"
  | PollMinKeyIndex | PollMinValue | PeekMinKeyIndex | PeekMinValue
  | Contains int | ValueOf int | Size | IsEmpty | IsMinHeap

datatype 'a ret = RUnit | RValue 'a | RKey "int option" | RBool bool | RNum int

definition returning :: "('r \<Rightarrow> 'a ret) \<Rightarrow> ((error + 'r) \<times> 'a heap) option \<Rightarrow>
    ((error + 'a ret) \<times> 'a heap) option" where
  "returning f x = map_option (\<lambda>(r, h). (map_sum id f r, h)) x"

fun exec :: "'a heap \<Rightarrow> 'a call \<Rightarrow> ((error + 'a ret) \<times> 'a heap) option" where
  "exec h (Insert k v) = returning (\<lambda>_. RUnit) (insert_h h k v)"
| "exec h (Delete k) = returning RValue (delete_h h k)"
| "exec h (Update k v) = returning RValue (update_h h k v)"
| "exec h (Decrease k v) = returning (\<lambda>_. RUnit) (decrease h k v)"
| "exec h (Increase k v) = returning (\<lambda>_. RUnit) (increase h k v)"
| "exec h PollMinKeyIndex = returning (\<lambda>k. RKey (Some k)) (pollMinKeyIndex h)"
| "exec h PollMinValue = returning RValue (pollMinValue h)"
| "exec h PeekMinKeyIndex = Some (map_sum id RKey (peekMinKeyIndex h), h)"
| "exec h PeekMinValue = map_option (\<lambda>r. (map_sum id RValue r, h)) (peekMinValue h)"
| "exec h (Contains k) = Some (map_sum id RBool (contains h k), h)"
| "exec h (ValueOf k) = map_option (\<lambda>r. (map_sum id RValue r, h)) (valueOf h k)"
| "exec h Size = Some (Inr (RNum (size_h h)), h)"
| "exec h IsEmpty = Some (Inr (RBool (isEmpty h)), h)"
| "exec h IsMinHeap = map_option (\<lambda>b. (Inr (RBool b), h)) (isMinHeap h)"

text \<open>The states of a heap constructed with comparator \<open>c\<close>, after any finite sequence of
  public calls, whether they return or throw.\<close>

inductive reachable :: "('a \<Rightarrow> 'a \<Rightarrow> int) \<Rightarrow> 'a heap \<Rightarrow> bool" for c :: "'a \<Rightarrow> 'a \<Rightarrow> int" where
  fresh: "constructor degree maxSize c = Inr h \<Longrightarrow> reachable c h"
| step: "reachable c h \<Longrightarrow> exec h call = Some (r, h') \<Longrightarrow> reachable c h'"

text \<open>Slot \<open>c\<close> is a child slot of \<open>s\<close>: it lies in the range
  \<^verbatim>\<open>[child[s], child[s] + D)\<close> that \<^verbatim>\<open>minChild\<close> and \<^verbatim>\<open>isMinHeapAt\<close> scan.\<close>

definition isChild :: "'a heap \<Rightarrow> int \<Rightarrow> int \<Rightarrow> bool" where
  "isChild h s c \<longleftrightarrow> (\<exists>f. child h s = Some f \<and> f \<le> c \<and> c < f + D h)"

text \<open>The state after a sequence of calls, and the results of its peek calls.\<close>

fun after :: "'a heap \<Rightarrow> 'a call list \<Rightarrow> 'a heap option" where
  "after h [] = Some h"
| "after h (c # cs) = do { (r, h') \<leftarrow> exec h c; after h' cs }"

definition isPeek :: "'a call \<Rightarrow> bool" where
  "isPeek c \<longleftrightarrow> c = PeekMinKeyIndex \<or> c = PeekMinValue"

fun peeks :: "'a heap \<Rightarrow> 'a call list \<Rightarrow> (error + 'a ret) list option" where
  "peeks h [] = Some []"
| "peeks h (c # cs) =
     do { (r, h') \<leftarrow> exec h c;
          rs \<leftarrow> peeks h' cs;
          Some (if isPeek c then r # rs else rs) }"

text \<open>Two concrete reachable heaps: the degree-3 heap of the tests after three inserts, and
  a heap of capacity 3 filled to capacity.\<close>

definition sample_heap :: "int heap" where
  "sample_heap = the (after (projr (constructor 3 10 ascending))
     [Insert 0 (Some 50), Insert 1 (Some 20), Insert 2 (Some 30)])"

definition full_heap :: "int heap" where
  "full_heap = the (after (projr (constructor 2 1 ascending))
     [Insert 0 (Some 5), Insert 1 (Some 7), Insert 2 (Some 6)])"

section \<open>Lemmas\<close>

subsection \<open>Frames and the constructor's loop\<close>

lemma frame_refl: "frame h h"
  by (simp add: frame_def)

lemma frame_trans: "frame h h1 \<Longrightarrow> frame h1 h2 \<Longrightarrow> frame h h2"
  by (simp add: frame_def)

lemma initLoop_closed:
  "i \<le> N h \<Longrightarrow>
   initLoop h i =
     h\<lparr>parent := (\<lambda>s. if i \<le> s \<and> s < N h then Some ((s - 1) div D h) else parent h s),
       child := (\<lambda>s. if i \<le> s \<and> s < N h then Some (s * D h + 1) else child h s),
       pm := (\<lambda>s. if i \<le> s \<and> s < N h then Some (- 1) else pm h s),
       im := (\<lambda>s. if i \<le> s \<and> s < N h then Some (- 1) else im h s),
       values_h := (\<lambda>s. if i \<le> s \<and> s < N h then Some None else values_h h s)\<rparr>"
proof (induction h i rule: initLoop.induct)
  case (1 h i)
  show ?case
  proof (cases "i < N h")
    case True
    have n: "N (initSlot h i) = N h" "D (initSlot h i) = D h"
      by (simp_all add: initSlot_def)
    have "i + 1 \<le> N (initSlot h i)"
      using True n by simp
    from "1.IH"[OF True this, unfolded n] have "initLoop h i = 
     (initSlot h i)\<lparr>parent := (\<lambda>s. if i + 1 \<le> s \<and> s < N h then Some ((s - 1) div D h) else parent (initSlot h i) s),
       child := (\<lambda>s. if i + 1 \<le> s \<and> s < N h then Some (s * D h + 1) else child (initSlot h i) s),
       pm := (\<lambda>s. if i + 1 \<le> s \<and> s < N h then Some (- 1) else pm (initSlot h i) s),
       im := (\<lambda>s. if i + 1 \<le> s \<and> s < N h then Some (- 1) else im (initSlot h i) s),
       values_h := (\<lambda>s. if i + 1 \<le> s \<and> s < N h then Some None else values_h (initSlot h i) s)\<rparr>"
      using True by (subst initLoop.simps) simp
    also have "\<dots> = h\<lparr>parent := (\<lambda>s. if i \<le> s \<and> s < N h then Some ((s - 1) div D h) else parent h s),
       child := (\<lambda>s. if i \<le> s \<and> s < N h then Some (s * D h + 1) else child h s),
       pm := (\<lambda>s. if i \<le> s \<and> s < N h then Some (- 1) else pm h s),
       im := (\<lambda>s. if i \<le> s \<and> s < N h then Some (- 1) else im h s),
       values_h := (\<lambda>s. if i \<le> s \<and> s < N h then Some None else values_h h s)\<rparr>"
      using True by (auto simp: initSlot_def fun_eq_iff)
    finally show ?thesis .
  next
    case False
    with "1.prems" have i: "i = N h" by simp
    have e: "\<And>s. (N h \<le> s \<and> s < N h) = False" by auto
    show ?thesis by (subst initLoop.simps) (simp add: i e)
  qed
qed

subsection \<open>Index arithmetic of the d-ary tree\<close>

lemma child_range_parent1:
  fixes d :: int
  assumes "1 \<le> d" "i * d + 1 \<le> c" "c < i * d + 1 + d"
  shows "(c - 1) div d = i"
proof (rule int_div_pos_eq)
  show "c - 1 = d * i + (c - 1 - i * d)" by (simp add: mult.commute)
  show "0 \<le> c - 1 - i * d" using assms by simp
  show "c - 1 - i * d < d" using assms by simp
qed

lemma child_range_parent2:
  fixes d :: int
  assumes "1 \<le> d" "(c - 1) div d = i"
  shows "i * d + 1 \<le> c \<and> c < i * d + 1 + d"
proof -
  have "(c - 1) div d * d + (c - 1) mod d = c - 1" by (rule div_mult_mod_eq)
  moreover have "0 \<le> (c - 1) mod d" "(c - 1) mod d < d" using assms(1) by simp_all
  ultimately show ?thesis using assms(2) by auto
qed

lemma child_range_parent:
  fixes d :: int
  assumes "1 \<le> d"
  shows "(i * d + 1 \<le> c \<and> c < i * d + 1 + d) \<longleftrightarrow> (c - 1) div d = i"
  using child_range_parent1[OF assms] child_range_parent2[OF assms] by blast

lemma parent_less:
  fixes d :: int
  assumes "1 \<le> d" "0 < c"
  shows "(c - 1) div d < c" "0 \<le> (c - 1) div d"
proof -
  have "(c - 1) div d \<le> c - 1"
  proof (cases "c = 1")
    case True
    then show ?thesis by simp
  next
    case False
    with assms(2) have "0 < c - 1" by simp
    then show ?thesis by (rule int_div_le_self)
  qed
  then show "(c - 1) div d < c" by simp
  show "0 \<le> (c - 1) div d" using assms by (simp add: pos_imp_zdiv_nonneg_iff)
qed

subsection \<open>Reading slots, comparing and swapping\<close>

lemma occupiedD:
  assumes "occupied h" "0 \<le> s" "s < sz h"
  obtains k v where "im h s = Some k" "0 \<le> k" "k < N h" "pm h k = Some s"
    "values_h h k = Some (Some v)"
  using assms unfolding occupied_def by blast

lemma slotValue_occupied:
  assumes "occupied h" "0 \<le> s" "s < sz h"
  shows "\<exists>v. slotValue h s = Some v"
proof -
  from assms obtain k v where "im h s = Some k" "values_h h k = Some (Some v)"
    by (rule occupiedD)
  then show ?thesis by (simp add: slotValue_def valueAt_def)
qed

lemma less_h_slotValue:
  "less_h h i j = do { a \<leftarrow> slotValue h i; b \<leftarrow> slotValue h j; Some (compare h a b < 0) }"
  by (simp add: less_h_def slotValue_def)

lemma less_h_slots:
  assumes "consistent (compare h)" "slotValue h i = Some a" "slotValue h j = Some b"
  shows "less_h h i j = Some (\<not> lesseq h j i)"
proof -
  have "(compare h a b < 0) = (0 < compare h b a)"
    using assms(1) unfolding consistent_def by blast
  then show ?thesis
    using assms(2,3) by (auto simp: less_h_slotValue lesseq_def)
qed

lemma lesseq_total:
  assumes "consistent (compare h)" "slotValue h i = Some a" "slotValue h j = Some b"
  shows "lesseq h i j \<or> lesseq h j i"
proof -
  have "(compare h a b < 0) = (0 < compare h b a)"
    using assms(1) unfolding consistent_def by blast
  then show ?thesis
    using assms(2,3) by (auto simp: lesseq_def)
qed

lemma lesseq_trans:
  assumes "consistent (compare h)" "lesseq h i j" "lesseq h j k"
  shows "lesseq h i k"
proof -
  from assms(2) obtain a b where ab: "slotValue h i = Some a" "slotValue h j = Some b"
    "compare h a b \<le> 0" unfolding lesseq_def by blast
  from assms(3) ab(2) obtain c where c: "slotValue h k = Some c" "compare h b c \<le> 0"
    unfolding lesseq_def by auto
  have "compare h a c \<le> 0"
    using assms(1) ab(3) c(2) unfolding consistent_def by blast
  with ab(1) c(1) show ?thesis unfolding lesseq_def by blast
qed

lemma swap_h_occupied:
  assumes occ: "occupied h" and i: "0 \<le> i" "i < sz h" and j: "0 \<le> j" "j < sz h"
  shows "\<exists>h'. swap_h h i j = Some h' \<and> occupied h' \<and> frame h h' \<and>
           (\<forall>s. slotValue h' s = slotValue h (if s = i then j else if s = j then i else s))"
proof -
  from occ i obtain ki vi where ki: "im h i = Some ki" "0 \<le> ki" "ki < N h" "pm h ki = Some i"
    "values_h h ki = Some (Some vi)" by (rule occupiedD)
  from occ j obtain kj vj where kj: "im h j = Some kj" "0 \<le> kj" "kj < N h" "pm h kj = Some j"
    "values_h h kj = Some (Some vj)" by (rule occupiedD)
  define h' where "h' = h\<lparr>pm := (pm h)(kj \<mapsto> i, ki \<mapsto> j), im := (im h)(i \<mapsto> kj, j \<mapsto> ki)\<rparr>"
  have sw: "swap_h h i j = Some h'"
    using ki(1) kj(1) by (simp add: swap_h_def h'_def)
  have inj: "\<And>s k. 0 \<le> s \<Longrightarrow> s < sz h \<Longrightarrow> im h s = Some k \<Longrightarrow> pm h k = Some s"
    using occ unfolding occupied_def by fastforce
  have keq: "ki = kj \<longleftrightarrow> i = j"
    using ki kj by auto
  have o': "occupied h'"
    unfolding occupied_def
  proof (intro conjI allI impI)
    show "0 \<le> sz h'" "sz h' \<le> N h'" using occ by (simp_all add: h'_def occupied_def)
  next
    fix s assume s: "0 \<le> s \<and> s < sz h'"
    then have s': "0 \<le> s" "s < sz h" by (simp_all add: h'_def)
    from occ s' obtain k v where k: "im h s = Some k" "0 \<le> k" "k < N h" "pm h k = Some s"
      "values_h h k = Some (Some v)" by (rule occupiedD)
    show "\<exists>k v. im h' s = Some k \<and> 0 \<le> k \<and> k < N h' \<and> pm h' k = Some s \<and>
               values_h h' k = Some (Some v)"
    proof (cases "s = i \<or> s = j")
      case True
      then show ?thesis using ki kj keq by (auto simp: h'_def)
    next
      case False
      then have "k \<noteq> ki" "k \<noteq> kj" using k(4) ki(4) kj(4) by auto
      then show ?thesis using False k by (auto simp: h'_def)
    qed
  qed
  have keys: "keys h' = keys h"
  proof (rule set_eqI)
    fix k
    show "k \<in> keys h' \<longleftrightarrow> k \<in> keys h"
    proof
      assume "k \<in> keys h'"
      then obtain s where s: "0 \<le> s" "s < sz h" "im h' s = Some k"
        by (auto simp: keys_def h'_def)
      define t where "t = (if s = i then j else if s = j then i else s)"
      have "im h t = Some k"
        using s ki(1) kj(1) by (auto simp: h'_def t_def split: if_splits)
      moreover have "0 \<le> t" "t < sz h" using s i j by (auto simp: t_def)
      ultimately show "k \<in> keys h" unfolding keys_def by blast
    next
      assume "k \<in> keys h"
      then obtain s where s: "0 \<le> s" "s < sz h" "im h s = Some k"
        by (auto simp: keys_def)
      define t where "t = (if s = i then j else if s = j then i else s)"
      have "im h' t = Some k"
        using s ki(1) kj(1) by (auto simp: h'_def t_def)
      moreover have "0 \<le> t" "t < sz h'" using s i j by (auto simp: h'_def t_def)
      ultimately show "k \<in> keys h'" unfolding keys_def by blast
    qed
  qed
  have kin: "ki \<in> keys h" "kj \<in> keys h"
    using ki(1) kj(1) i j unfolding keys_def by blast+
  have fr: "frame h h'"
    unfolding frame_def using keys kin i j by (auto simp: h'_def)
  have sv: "\<forall>s. slotValue h' s = slotValue h (if s = i then j else if s = j then i else s)"
    using ki(1) kj(1) by (auto simp: slotValue_def valueAt_def h'_def)
  from sw o' fr sv show ?thesis by blast
qed

subsection \<open>One step of sink and of swim, on the order alone\<close>

text \<open>Both lemmas are about a relation \<open>le\<close> on slots, a parent function and the relation
  \<open>le'\<close> obtained by exchanging two slots; they carry the whole order argument.\<close>

lemma sink_step_order:
  fixes le le' :: "int \<Rightarrow> int \<Rightarrow> bool" and par :: "int \<Rightarrow> int"
  assumes tot0: "\<forall>a b. 0 \<le> a \<and> a < n \<and> 0 \<le> b \<and> b < n \<longrightarrow> le a b \<or> le b a"
    and par0: "\<forall>c. 0 < c \<longrightarrow> 0 \<le> par c \<and> par c < c"
    and exc0: "\<forall>c. 0 < c \<and> c < n \<and> c \<noteq> i \<and> par c \<noteq> i \<longrightarrow> le (par c) c"
    and grand0: "\<forall>c. 0 < c \<and> c < n \<and> par c = i \<and> 0 < i \<longrightarrow> le (par i) c"
    and i: "0 \<le> i"
    and r: "0 < r" "r < n" "par r = i" "\<not> le i r"
    and rmin0: "\<forall>c. 0 < c \<and> c < n \<and> par c = i \<longrightarrow> le r c"
    and le'0: "\<forall>a b. le' a b = le (if a = i then r else if a = r then i else a)
                                  (if b = i then r else if b = r then i else b)"
  shows "\<forall>c. 0 < c \<and> c < n \<and> c \<noteq> r \<and> par c \<noteq> r \<longrightarrow> le' (par c) c"
    and "\<forall>c. 0 < c \<and> c < n \<and> par c = r \<and> 0 < r \<longrightarrow> le' (par r) c"
    and "le' (par r) r"
proof -
  have tot: "\<And>a b. 0 \<le> a \<Longrightarrow> a < n \<Longrightarrow> 0 \<le> b \<Longrightarrow> b < n \<Longrightarrow> le a b \<or> le b a"
    using tot0 by blast
  have par: "\<And>c. 0 < c \<Longrightarrow> 0 \<le> par c \<and> par c < c"
    using par0 by blast
  have exc: "\<And>c. 0 < c \<Longrightarrow> c < n \<Longrightarrow> c \<noteq> i \<Longrightarrow> par c \<noteq> i \<Longrightarrow> le (par c) c"
    using exc0 by blast
  have grand: "\<And>c. 0 < c \<Longrightarrow> c < n \<Longrightarrow> par c = i \<Longrightarrow> 0 < i \<Longrightarrow> le (par i) c"
    using grand0 by blast
  have rmin: "\<And>c. 0 < c \<Longrightarrow> c < n \<Longrightarrow> par c = i \<Longrightarrow> le r c"
    using rmin0 by blast
  have le': "\<And>a b. le' a b = le (if a = i then r else if a = r then i else a)
                                  (if b = i then r else if b = r then i else b)"
    using le'0 by blast
  have ir: "i < r" using par[OF r(1)] r(3) by simp
  show "le' (par r) r"
    using tot[of i r] r ir i by (simp add: le')
  have "le' (par r) c" if c: "0 < c" "c < n" "par c = r" for c
  proof -
    have "r < c" using par[OF c(1)] c(3) by simp
    then have "c \<noteq> i" "c \<noteq> r" "par c \<noteq> i" using ir c(3) by auto
    then have "le (par c) c" using exc c by blast
    then show ?thesis using c(3) r(3) \<open>c \<noteq> i\<close> \<open>c \<noteq> r\<close> ir by (simp add: le')
  qed
  then show "\<forall>c. 0 < c \<and> c < n \<and> par c = r \<and> 0 < r \<longrightarrow> le' (par r) c" by blast
  have "le' (par c) c" if c: "0 < c" "c < n" "c \<noteq> r" "par c \<noteq> r" for c
  proof (cases "c = i")
    case True
    then have "0 < i" using c by simp
    have "par i < i" using par[OF \<open>0 < i\<close>] by simp
    then have "par i \<noteq> i" "par i \<noteq> r" using ir by auto
    moreover have "le (par i) r" using grand[OF r(1,2,3) \<open>0 < i\<close>] .
    ultimately show ?thesis using True ir by (simp add: le')
  next
    case False
    show ?thesis
    proof (cases "par c = i")
      case True
      then have "le r c" using rmin c by blast
      then show ?thesis using True False c ir by (simp add: le')
    next
      case F2: False
      then have "le (par c) c" using exc c False by blast
      then show ?thesis using F2 False c by (simp add: le')
    qed
  qed
  then show "\<forall>c. 0 < c \<and> c < n \<and> c \<noteq> r \<and> par c \<noteq> r \<longrightarrow> le' (par c) c" by blast
qed

lemma swim_step_order:
  fixes le le' :: "int \<Rightarrow> int \<Rightarrow> bool" and par :: "int \<Rightarrow> int"
  assumes tot0: "\<forall>a b. 0 \<le> a \<and> a < n \<and> 0 \<le> b \<and> b < n \<longrightarrow> le a b \<or> le b a"
    and tr0: "\<forall>a b c. le a b \<and> le b c \<longrightarrow> le a c"
    and par0: "\<forall>c. 0 < c \<longrightarrow> 0 \<le> par c \<and> par c < c"
    and exc0: "\<forall>c. 0 < c \<and> c < n \<and> c \<noteq> i \<and> par c \<noteq> i \<longrightarrow> le (par c) c"
    and grand0: "\<forall>c. 0 < c \<and> c < n \<and> par c = i \<and> 0 < i \<longrightarrow> le (par i) c"
    and kids0: "\<forall>c. 0 < c \<and> c < n \<and> par c = i \<longrightarrow> le i c"
    and i: "0 < i" "i < n" "\<not> le (par i) i"
    and le'0: "\<forall>a b. le' a b = le (if a = i then par i else if a = par i then i else a)
                                  (if b = i then par i else if b = par i then i else b)"
  shows "\<forall>c. 0 < c \<and> c < n \<and> c \<noteq> par i \<and> par c \<noteq> par i \<longrightarrow> le' (par c) c"
    and "\<forall>c. 0 < c \<and> c < n \<and> par c = par i \<and> 0 < par i \<longrightarrow> le' (par (par i)) c"
    and "\<forall>c. 0 < c \<and> c < n \<and> par c = par i \<longrightarrow> le' (par i) c"
proof -
  have tot: "\<And>a b. 0 \<le> a \<Longrightarrow> a < n \<Longrightarrow> 0 \<le> b \<Longrightarrow> b < n \<Longrightarrow> le a b \<or> le b a"
    using tot0 by blast
  have tr: "\<And>a b c. le a b \<Longrightarrow> le b c \<Longrightarrow> le a c"
    using tr0 by blast
  have par: "\<And>c. 0 < c \<Longrightarrow> 0 \<le> par c \<and> par c < c"
    using par0 by blast
  have exc: "\<And>c. 0 < c \<Longrightarrow> c < n \<Longrightarrow> c \<noteq> i \<Longrightarrow> par c \<noteq> i \<Longrightarrow> le (par c) c"
    using exc0 by blast
  have grand: "\<And>c. 0 < c \<Longrightarrow> c < n \<Longrightarrow> par c = i \<Longrightarrow> 0 < i \<Longrightarrow> le (par i) c"
    using grand0 by blast
  have kids: "\<And>c. 0 < c \<Longrightarrow> c < n \<Longrightarrow> par c = i \<Longrightarrow> le i c"
    using kids0 by blast
  have le': "\<And>a b. le' a b = le (if a = i then par i else if a = par i then i else a)
                                  (if b = i then par i else if b = par i then i else b)"
    using le'0 by blast
  define p where "p = par i"
  have p: "0 \<le> p" "p < i" "p < n" using par[OF i(1)] i(2) by (simp_all add: p_def)
  have lip: "le i p" using tot[of i p] i p by (auto simp: p_def)
  have "le' (par c) c" if c: "0 < c" "c < n" "c \<noteq> par i" "par c \<noteq> par i" for c
  proof -
    have ci: "c \<noteq> i" using c(4) by auto
    show ?thesis
    proof (cases "par c = i")
      case True
      then have "le (par i) c" using grand c i(1) by blast
      then show ?thesis using True ci c(3) p by (simp add: le' p_def)
    next
      case False
      then have "le (par c) c" using exc c ci by blast
      then show ?thesis using False ci c(3,4) by (simp add: le')
    qed
  qed
  then show "\<forall>c. 0 < c \<and> c < n \<and> c \<noteq> par i \<and> par c \<noteq> par i \<longrightarrow> le' (par c) c"
    by blast
  have pp: "le (par p) p" if "0 < p"
  proof -
    have "par p < p" using par[OF that] by simp
    then have "par p \<noteq> i" using p by simp
    then show ?thesis using exc[of p] that p by simp
  qed
  have "le' (par (par i)) c" if c: "0 < c" "c < n" "par c = par i" "0 < par i" for c
  proof -
    have pos: "0 < p" using c(4) by (simp add: p_def)
    have "par p < p" using par[OF pos] by simp
    then have q: "par p \<noteq> i" "par p \<noteq> p" using p by auto
    have cp: "c \<noteq> p" using par[OF c(1)] c(3) by (auto simp: p_def)
    show ?thesis
    proof (cases "c = i")
      case True
      then show ?thesis using pp[OF pos] q p by (simp add: le' p_def[symmetric])
    next
      case False
      then have "le p c" using exc[of c] c p by (simp add: p_def)
      then have "le (par p) c" using tr pp[OF pos] by blast
      then show ?thesis using False cp q by (simp add: le' p_def[symmetric])
    qed
  qed
  then show "\<forall>c. 0 < c \<and> c < n \<and> par c = par i \<and> 0 < par i \<longrightarrow> le' (par (par i)) c"
    by blast
  have "le' (par i) c" if c: "0 < c" "c < n" "par c = par i" for c
  proof -
    have cp: "c \<noteq> p" using par[OF c(1)] c(3) by (auto simp: p_def)
    show ?thesis
    proof (cases "c = i")
      case True
      then show ?thesis using lip p by (simp add: le' p_def[symmetric])
    next
      case False
      then have "le p c" using exc[of c] c p by (simp add: p_def)
      then have "le i c" using tr lip by blast
      then show ?thesis using False cp p by (simp add: le' p_def[symmetric])
    qed
  qed
  then show "\<forall>c. 0 < c \<and> c < n \<and> par c = par i \<longrightarrow> le' (par i) c"
    by blast
qed

subsection \<open>\<^verbatim>\<open>minChild\<close>, \<^verbatim>\<open>sink\<close> and \<^verbatim>\<open>swim\<close> on the state\<close>

lemma minChildLoop_spec:
  assumes con: "consistent (compare h)" and occ: "occupied h"
    and i: "0 \<le> i" "i < sz h" and "from": "0 < from" and to: "to \<le> sz h"
  shows "from \<le> j \<Longrightarrow>
     (cur = i \<or> (from \<le> cur \<and> cur < j \<and> cur < to)) \<Longrightarrow>
     (\<forall>c. from \<le> c \<and> c < j \<and> c < to \<longrightarrow> lesseq h cur c) \<Longrightarrow>
     ((index = - 1 \<and> cur = i) \<or> (index = cur \<and> from \<le> cur \<and> cur < j \<and> cur < to \<and> \<not> lesseq h i cur)) \<Longrightarrow>
     \<exists>r. minChildLoop h to j cur index = Some r \<and>
         ((r = - 1 \<and> (\<forall>c. from \<le> c \<and> c < to \<longrightarrow> lesseq h i c)) \<or>
          (from \<le> r \<and> r < to \<and> \<not> lesseq h i r \<and> (\<forall>c. from \<le> c \<and> c < to \<longrightarrow> lesseq h r c)))"
proof (induction "nat (to - j)" arbitrary: j cur index)
  case 0
  then have "\<not> j < to" by simp
  then have "minChildLoop h to j cur index = Some index"
    by (subst minChildLoop.simps) simp
  moreover have "\<forall>c. from \<le> c \<and> c < to \<longrightarrow> lesseq h cur c"
    using "0.prems"(3) \<open>\<not> j < to\<close> by auto
  ultimately show ?case using "0.prems"(2,4) by auto
next
  case (Suc n)
  then have jt: "j < to" by simp
  have curdef: "0 \<le> cur" "cur < sz h"
    using Suc.prems(2) i "from" to by auto
  obtain a where a: "slotValue h cur = Some a"
    using slotValue_occupied[OF occ curdef] by blast
  have jdef: "0 \<le> j" "j < sz h" using Suc.prems(1) "from" jt to by auto
  obtain b where b: "slotValue h j = Some b"
    using slotValue_occupied[OF occ jdef] by blast
  obtain x where x: "slotValue h i = Some x"
    using slotValue_occupied[OF occ i] by blast
  have less: "less_h h j cur = Some (\<not> lesseq h cur j)"
    using less_h_slots[OF con b a] .
  have n: "n = nat (to - (j + 1))" using Suc.hyps(2) by simp
  show ?case
  proof (cases "lesseq h cur j")
    case True
    have step: "minChildLoop h to j cur index = minChildLoop h to (j + 1) cur index"
      using jt less True by (subst minChildLoop.simps) simp
    have "\<forall>c. from \<le> c \<and> c < j + 1 \<and> c < to \<longrightarrow> lesseq h cur c"
    proof (intro allI impI)
      fix c assume "from \<le> c \<and> c < j + 1 \<and> c < to"
      then have "c = j \<or> (from \<le> c \<and> c < j \<and> c < to)" by auto
      then show "lesseq h cur c" using True Suc.prems(3) by blast
    qed
    moreover have "cur = i \<or> (from \<le> cur \<and> cur < j + 1 \<and> cur < to)"
      using Suc.prems(2) by auto
    moreover have "from \<le> j + 1" using Suc.prems(1) by simp
    moreover have "(index = - 1 \<and> cur = i) \<or>
        (index = cur \<and> from \<le> cur \<and> cur < j + 1 \<and> cur < to \<and> \<not> lesseq h i cur)"
      using Suc.prems(4) by auto
    ultimately show ?thesis
      using Suc.hyps(1)[OF n, of cur index] step by simp
  next
    case False
    have step: "minChildLoop h to j cur index = minChildLoop h to (j + 1) j j"
      using jt less False by (subst minChildLoop.simps) simp
    have jc: "lesseq h j cur" using lesseq_total[OF con b a] False by blast
    have jj: "lesseq h j j" using lesseq_total[OF con b b] by blast
    have "\<forall>c. from \<le> c \<and> c < j + 1 \<and> c < to \<longrightarrow> lesseq h j c"
    proof (intro allI impI)
      fix c assume c: "from \<le> c \<and> c < j + 1 \<and> c < to"
      show "lesseq h j c"
      proof (cases "c = j")
        case True
        then show ?thesis using jj by simp
      next
        case F: False
        then have "lesseq h cur c" using c Suc.prems(3) by auto
        then show ?thesis using lesseq_trans[OF con jc] by blast
      qed
    qed
    moreover have "\<not> lesseq h i j"
    proof
      assume ij: "lesseq h i j"
      then have "lesseq h i cur" using lesseq_trans[OF con ij jc] by blast
      moreover have "cur = i \<or> \<not> lesseq h i cur" using Suc.prems(4) by auto
      ultimately have "cur = i" by blast
      then show False using ij False by simp
    qed
    moreover have "j = i \<or> (from \<le> j \<and> j < j + 1 \<and> j < to)"
      using Suc.prems(1) jt by simp
    moreover have "from \<le> j + 1" using Suc.prems(1) by simp
    ultimately have "\<exists>r. minChildLoop h to (j + 1) j j = Some r \<and>
         ((r = - 1 \<and> (\<forall>c. from \<le> c \<and> c < to \<longrightarrow> lesseq h i c)) \<or>
          (from \<le> r \<and> r < to \<and> \<not> lesseq h i r \<and> (\<forall>c. from \<le> c \<and> c < to \<longrightarrow> lesseq h r c)))"
      using Suc.prems(1) jt by (intro Suc.hyps(1)[OF n, of j j]) simp_all
    then show ?thesis using step by simp
  qed
qed

lemma minChild_spec:
  assumes con: "consistent (compare h)" and top: "topology h" and occ: "occupied h"
    and i: "0 \<le> i" "i < sz h"
  shows "\<exists>r. minChild h i = Some r \<and>
           ((r = - 1 \<and> childrenOk h i) \<or>
            (0 < r \<and> r < sz h \<and> parentOf h r = i \<and> \<not> lesseq h i r \<and>
             (\<forall>c. 0 < c \<and> c < sz h \<and> parentOf h c = i \<longrightarrow> lesseq h r c)))"
proof -
  define "from" where "from = i * D h + 1"
  define to where "to = min (sz h) (from + D h)"
  have d: "1 \<le> D h" using top unfolding topology_def by simp
  have "i < N h" using i occ unfolding occupied_def by simp
  then have ch: "child h i = Some from"
    using top i unfolding topology_def from_def by simp
  have "0 \<le> i * D h" using i d by simp
  then have fpos: "0 < from" by (simp add: from_def)
  have tole: "to \<le> sz h" by (simp add: to_def)
  have rng: "\<And>c. (from \<le> c \<and> c < to) \<longleftrightarrow> (0 < c \<and> c < sz h \<and> parentOf h c = i)"
  proof -
    fix c
    have "(i * D h + 1 \<le> c \<and> c < i * D h + 1 + D h) \<longleftrightarrow> parentOf h c = i"
      unfolding parentOf_def by (rule child_range_parent[OF d])
    moreover have "parentOf h c = i \<Longrightarrow> 0 < c"
      using child_range_parent2[OF d, of c i] fpos unfolding parentOf_def from_def by simp
    ultimately show "(from \<le> c \<and> c < to) \<longleftrightarrow> (0 < c \<and> c < sz h \<and> parentOf h c = i)"
      unfolding from_def to_def by auto
  qed
  have "\<exists>r. minChildLoop h to from i (- 1) = Some r \<and>
         ((r = - 1 \<and> (\<forall>c. from \<le> c \<and> c < to \<longrightarrow> lesseq h i c)) \<or>
          (from \<le> r \<and> r < to \<and> \<not> lesseq h i r \<and> (\<forall>c. from \<le> c \<and> c < to \<longrightarrow> lesseq h r c)))"
    by (rule minChildLoop_spec[OF con occ i fpos tole]) auto
  then obtain r where r: "minChildLoop h to from i (- 1) = Some r"
    "(r = - 1 \<and> (\<forall>c. from \<le> c \<and> c < to \<longrightarrow> lesseq h i c)) \<or>
          (from \<le> r \<and> r < to \<and> \<not> lesseq h i r \<and> (\<forall>c. from \<le> c \<and> c < to \<longrightarrow> lesseq h r c))"
    by blast
  have "minChild h i = Some r"
    using ch r(1) by (simp add: minChild_def to_def)
  moreover have "(r = - 1 \<and> childrenOk h i) \<or>
            (0 < r \<and> r < sz h \<and> parentOf h r = i \<and> \<not> lesseq h i r \<and>
             (\<forall>c. 0 < c \<and> c < sz h \<and> parentOf h c = i \<longrightarrow> lesseq h r c))"
    using r(2) rng unfolding childrenOk_def by blast
  ultimately show ?thesis by blast
qed

lemma lesseq_swap:
  assumes "\<forall>s. slotValue h' s = slotValue h (if s = i then j else if s = j then i else s)"
    and "compare h' = compare h"
  shows "lesseq h' a b = lesseq h (if a = i then j else if a = j then i else a)
                                  (if b = i then j else if b = j then i else b)"
  unfolding lesseq_def using assms by simp

lemma frame_topology: "frame h h' \<Longrightarrow> topology h \<Longrightarrow> topology h'"
  by (simp add: frame_def topology_def)

lemma frame_parentOf: "frame h h' \<Longrightarrow> parentOf h' = parentOf h"
  by (simp add: frame_def parentOf_def fun_eq_iff)

lemma parentOf_less:
  assumes "topology h" "0 < c"
  shows "0 \<le> parentOf h c \<and> parentOf h c < c"
proof -
  have "1 \<le> D h" using assms(1) unfolding topology_def by simp
  then show ?thesis using parent_less[OF _ assms(2)] unfolding parentOf_def by simp
qed

lemma heapOrder_from:
  assumes "exceptAt h i" "childrenOk h i" "0 < i \<and> i < sz h \<longrightarrow> lesseq h (parentOf h i) i"
  shows "heapOrder h"
  unfolding heapOrder_def
proof (intro allI impI)
  fix c assume c: "0 < c \<and> c < sz h"
  show "lesseq h (parentOf h c) c"
  proof (cases "c = i")
    case True
    then show ?thesis using assms(3) c by simp
  next
    case False
    show ?thesis
    proof (cases "parentOf h c = i")
      case True
      then show ?thesis using assms(2) c unfolding childrenOk_def by auto
    next
      case F: False
      then show ?thesis using assms(1) c False unfolding exceptAt_def by blast
    qed
  qed
qed

lemma heapOrder_exceptAt:
  assumes con: "consistent (compare h)" and top: "topology h" and ho: "heapOrder h"
  shows "exceptAt h i" "childrenOk h i"
proof -
  show "childrenOk h i"
    using ho unfolding childrenOk_def heapOrder_def by blast
  show "exceptAt h i"
    unfolding exceptAt_def
  proof (intro conjI allI impI)
    fix c assume "0 < c \<and> c < sz h \<and> c \<noteq> i \<and> parentOf h c \<noteq> i"
    then show "lesseq h (parentOf h c) c" using ho unfolding heapOrder_def by blast
  next
    fix c assume c: "0 < c \<and> c < sz h \<and> parentOf h c = i \<and> 0 < i"
    then have "i < c" using parentOf_less[OF top, of c] by auto
    then have "lesseq h (parentOf h i) i" using ho c unfolding heapOrder_def by auto
    moreover have "lesseq h i c" using ho c unfolding heapOrder_def by blast
    ultimately show "lesseq h (parentOf h i) c" by (rule lesseq_trans[OF con])
  qed
qed

lemma sink_spec:
  "consistent (compare h) \<Longrightarrow> topology h \<Longrightarrow> occupied h \<Longrightarrow> 0 \<le> i \<Longrightarrow> i < sz h \<Longrightarrow>
   exceptAt h i \<Longrightarrow>
   \<exists>h'. sink h i = Some h' \<and> occupied h' \<and> frame h h' \<and>
        (heapOrder h' \<or> (h' = h \<and> childrenOk h i))"
proof (induction "nat (sz h - i)" arbitrary: h i rule: less_induct)
  case less
  note con = less.prems(1) and top = less.prems(2) and occ = less.prems(3)
    and i = less.prems(4,5) and exc = less.prems(6)
  from minChild_spec[OF con top occ i] obtain r where
    mc: "minChild h i = Some r" and
    r: "(r = - 1 \<and> childrenOk h i) \<or>
        (0 < r \<and> r < sz h \<and> parentOf h r = i \<and> \<not> lesseq h i r \<and>
         (\<forall>c. 0 < c \<and> c < sz h \<and> parentOf h c = i \<longrightarrow> lesseq h r c))"
    by blast
  show ?case
  proof (cases "r = - 1")
    case True
    then have "sink h i = Some h" using mc by (subst sink.simps) simp
    moreover have "childrenOk h i" using r True by simp
    ultimately show ?thesis using occ frame_refl by blast
  next
    case False
    with r have r: "0 < r" "r < sz h" "parentOf h r = i" "\<not> lesseq h i r"
      "\<And>c. 0 < c \<Longrightarrow> c < sz h \<Longrightarrow> parentOf h c = i \<Longrightarrow> lesseq h r c"
      by auto
    have ir: "i < r" using parentOf_less[OF top r(1)] r(3) by simp
    from swap_h_occupied[OF occ i] r(1,2) obtain h1 where
      sw: "swap_h h i r = Some h1" and occ1: "occupied h1" and fr1: "frame h h1" and
      sv1: "\<forall>s. slotValue h1 s = slotValue h (if s = i then r else if s = r then i else s)"
      by (metis less_imp_le)
    have same: "sz h1 = sz h" "compare h1 = compare h" "parentOf h1 = parentOf h"
      using fr1 frame_parentOf[OF fr1] by (simp_all add: frame_def)
    have le1: "\<And>a b. lesseq h1 a b = lesseq h (if a = i then r else if a = r then i else a)
                                  (if b = i then r else if b = r then i else b)"
      using lesseq_swap[OF sv1 same(2)] .
    have tot: "\<forall>a b. 0 \<le> a \<and> a < sz h \<and> 0 \<le> b \<and> b < sz h \<longrightarrow> lesseq h a b \<or> lesseq h b a"
      using slotValue_occupied[OF occ] lesseq_total[OF con] by blast
    have par: "\<forall>c. 0 < c \<longrightarrow> 0 \<le> parentOf h c \<and> parentOf h c < c"
      using parentOf_less[OF top] by blast
    have exc1: "\<forall>c. 0 < c \<and> c < sz h \<and> c \<noteq> i \<and> parentOf h c \<noteq> i \<longrightarrow> lesseq h (parentOf h c) c"
      using exc unfolding exceptAt_def by blast
    have grand: "\<forall>c. 0 < c \<and> c < sz h \<and> parentOf h c = i \<and> 0 < i \<longrightarrow> lesseq h (parentOf h i) c"
      using exc unfolding exceptAt_def by blast
    have rmin: "\<forall>c. 0 < c \<and> c < sz h \<and> parentOf h c = i \<longrightarrow> lesseq h r c"
      using r(5) by blast
    have le1': "\<forall>a b. lesseq h1 a b = lesseq h (if a = i then r else if a = r then i else a)
                                  (if b = i then r else if b = r then i else b)"
      using le1 by blast
    note step = sink_step_order[of "sz h" "lesseq h" "parentOf h" i r "lesseq h1",
        OF tot par exc1 grand i(1) r(1,2,3,4) rmin le1']
    have exr: "exceptAt h1 r"
      unfolding exceptAt_def same using step(1,2) by blast
    have edge: "lesseq h1 (parentOf h1 r) r"
      unfolding same using step(3) by blast
    have m: "nat (sz h1 - r) < nat (sz h - i)" using ir r(2) same(1) by simp
    have r0: "0 \<le> r" "r < sz h1" using r(1,2) same(1) by simp_all
    from less.hyps[OF m _ frame_topology[OF fr1 top] occ1 r0 exr] con same(2)
    obtain h' where h': "sink h1 r = Some h'" "occupied h'" "frame h1 h'"
      "heapOrder h' \<or> (h' = h1 \<and> childrenOk h1 r)" by auto
    have "heapOrder h'"
    proof (cases "heapOrder h'")
      case True
      then show ?thesis .
    next
      case F: False
      with h'(4) have "h' = h1" "childrenOk h1 r" by auto
      then show ?thesis using heapOrder_from[OF exr] edge by simp
    qed
    moreover have "sink h i = Some h'"
      using mc False sw h'(1) by (subst sink.simps) simp
    ultimately show ?thesis using h'(2) frame_trans[OF fr1 h'(3)] by blast
  qed
qed

lemma swim_spec:
  "consistent (compare h) \<Longrightarrow> topology h \<Longrightarrow> occupied h \<Longrightarrow> 0 \<le> i \<Longrightarrow> i < sz h \<Longrightarrow>
   exceptAt h i \<Longrightarrow> childrenOk h i \<Longrightarrow>
   \<exists>h'. swim h i = Some h' \<and> occupied h' \<and> frame h h' \<and> heapOrder h'"
proof (induction "nat i" arbitrary: h i rule: less_induct)
  case less
  note con = less.prems(1) and top = less.prems(2) and occ = less.prems(3)
    and i = less.prems(4,5) and exc = less.prems(6) and kids = less.prems(7)
  show ?case
  proof (cases "0 < i")
    case False
    then have "swim h i = Some h" by (subst swim.simps) simp
    moreover have "heapOrder h" using heapOrder_from[OF exc kids] False by simp
    ultimately show ?thesis using occ frame_refl by blast
  next
    case True
    define p where "p = parentOf h i"
    have p: "0 \<le> p" "p < i" using parentOf_less[OF top True] by (simp_all add: p_def)
    have "i < N h" using i occ unfolding occupied_def by simp
    then have par: "parent h i = Some p"
      using top i unfolding topology_def p_def parentOf_def by simp
    have pr: "p < sz h" using p i by simp
    obtain a where a: "slotValue h i = Some a"
      using slotValue_occupied[OF occ i] by blast
    obtain b where b: "slotValue h p = Some b"
      using slotValue_occupied[OF occ p(1) pr] by blast
    have less: "less_h h i p = Some (\<not> lesseq h p i)"
      using less_h_slots[OF con a b] .
    show ?thesis
    proof (cases "lesseq h p i")
      case T: True
      then have "swim h i = Some h" using True par less by (subst swim.simps) simp
      moreover have "heapOrder h" using heapOrder_from[OF exc kids] T by (simp add: p_def)
      ultimately show ?thesis using occ frame_refl by blast
    next
      case False
      from swap_h_occupied[OF occ i p(1) pr] obtain h1 where
        sw: "swap_h h i p = Some h1" and occ1: "occupied h1" and fr1: "frame h h1" and
        sv1: "\<forall>s. slotValue h1 s = slotValue h (if s = i then p else if s = p then i else s)"
        by blast
      have same: "sz h1 = sz h" "compare h1 = compare h" "parentOf h1 = parentOf h"
        "parent h1 = parent h"
        using fr1 frame_parentOf[OF fr1] by (simp_all add: frame_def)
      have le1: "\<And>a b. lesseq h1 a b =
          lesseq h (if a = i then parentOf h i else if a = parentOf h i then i else a)
                   (if b = i then parentOf h i else if b = parentOf h i then i else b)"
        using lesseq_swap[OF sv1 same(2)] unfolding p_def .
      have tot: "\<forall>a b. 0 \<le> a \<and> a < sz h \<and> 0 \<le> b \<and> b < sz h \<longrightarrow> lesseq h a b \<or> lesseq h b a"
        using slotValue_occupied[OF occ] lesseq_total[OF con] by blast
      have tr: "\<forall>a b c. lesseq h a b \<and> lesseq h b c \<longrightarrow> lesseq h a c"
        using lesseq_trans[OF con] by blast
      have par0: "\<forall>c. 0 < c \<longrightarrow> 0 \<le> parentOf h c \<and> parentOf h c < c"
        using parentOf_less[OF top] by blast
      have exc1: "\<forall>c. 0 < c \<and> c < sz h \<and> c \<noteq> i \<and> parentOf h c \<noteq> i \<longrightarrow> lesseq h (parentOf h c) c"
        using exc unfolding exceptAt_def by blast
      have grand: "\<forall>c. 0 < c \<and> c < sz h \<and> parentOf h c = i \<and> 0 < i \<longrightarrow> lesseq h (parentOf h i) c"
        using exc unfolding exceptAt_def by blast
      have kids1: "\<forall>c. 0 < c \<and> c < sz h \<and> parentOf h c = i \<longrightarrow> lesseq h i c"
        using kids unfolding childrenOk_def by blast
      have nle: "\<not> lesseq h (parentOf h i) i" using False by (simp add: p_def)
      have le1': "\<forall>a b. lesseq h1 a b =
          lesseq h (if a = i then parentOf h i else if a = parentOf h i then i else a)
                   (if b = i then parentOf h i else if b = parentOf h i then i else b)"
        using le1 by blast
      note step = swim_step_order[of "sz h" "lesseq h" "parentOf h" i "lesseq h1",
          OF tot tr par0 exc1 grand kids1 True i(2) nle le1']
      have exr: "exceptAt h1 p"
        unfolding exceptAt_def same p_def using step(1,2) by blast
      have kr: "childrenOk h1 p"
        unfolding childrenOk_def same p_def using step(3) by blast
      have m: "nat p < nat i" using p by simp
      have p1: "p < sz h1" using pr same(1) by simp
      from less.hyps[OF m _ frame_topology[OF fr1 top] occ1 p(1) p1 exr kr] con same(2)
      obtain h' where h': "swim h1 p = Some h'" "occupied h'" "frame h1 h'" "heapOrder h'"
        by auto
      have "swim h i = Some h'"
        using True par less False sw same(4) h'(1) by (subst swim.simps) simp
      then show ?thesis using h'(2,4) frame_trans[OF fr1 h'(3)] by blast
    qed
  qed
qed

subsection \<open>Carrying the order from one state to another; counting keys\<close>

lemma lesseq_cong:
  assumes "slotValue h' a = slotValue h a" "slotValue h' b = slotValue h b"
    "compare h' = compare h"
  shows "lesseq h' a b = lesseq h a b"
  using assms by (simp add: lesseq_def)

lemma exceptAt_transfer:
  assumes exc: "exceptAt h i" and top: "topology h"
    and same: "D h' = D h" "compare h' = compare h"
    and rng: "\<forall>c. 0 < c \<and> c < sz h' \<and> c \<noteq> i \<longrightarrow> c < sz h"
    and sv: "\<forall>s. 0 \<le> s \<and> s < sz h' \<and> s \<noteq> i \<longrightarrow> slotValue h' s = slotValue h s"
  shows "exceptAt h' i"
proof -
  have po: "parentOf h' = parentOf h" using same(1) by (simp add: parentOf_def fun_eq_iff)
  show ?thesis
    unfolding exceptAt_def po
  proof (intro conjI allI impI)
    fix c assume c: "0 < c \<and> c < sz h' \<and> c \<noteq> i \<and> parentOf h c \<noteq> i"
    then have "c < sz h" using rng by blast
    then have "lesseq h (parentOf h c) c" using exc c unfolding exceptAt_def by blast
    moreover have "0 \<le> parentOf h c \<and> parentOf h c < c"
      using parentOf_less[OF top, of c] c by blast
    then have "slotValue h' (parentOf h c) = slotValue h (parentOf h c)"
      using sv c by auto
    moreover have "slotValue h' c = slotValue h c" using sv c by auto
    ultimately show "lesseq h' (parentOf h c) c"
      using lesseq_cong[OF _ _ same(2)] by blast
  next
    fix c assume c: "0 < c \<and> c < sz h' \<and> parentOf h c = i \<and> 0 < i"
    have ic: "i < c" using parentOf_less[OF top, of c] c by auto
    then have "c < sz h" using rng c by auto
    then have "lesseq h (parentOf h i) c" using exc c unfolding exceptAt_def by blast
    moreover have pi: "0 \<le> parentOf h i \<and> parentOf h i < i"
      using parentOf_less[OF top, of i] c by blast
    then have "slotValue h' (parentOf h i) = slotValue h (parentOf h i)"
      using sv c ic by auto
    moreover have "slotValue h' c = slotValue h c" using sv c ic by auto
    ultimately show "lesseq h' (parentOf h i) c"
      using lesseq_cong[OF _ _ same(2)] by blast
  qed
qed

lemma heapOrder_transfer:
  assumes ho: "heapOrder h" and top: "topology h"
    and same: "D h' = D h" "compare h' = compare h" "sz h' \<le> sz h"
    and sv: "\<forall>s. 0 \<le> s \<and> s < sz h' \<longrightarrow> slotValue h' s = slotValue h s"
  shows "heapOrder h'"
proof -
  have po: "parentOf h' = parentOf h" using same(1) by (simp add: parentOf_def fun_eq_iff)
  show ?thesis
    unfolding heapOrder_def po
  proof (intro allI impI)
    fix c assume c: "0 < c \<and> c < sz h'"
    then have "lesseq h (parentOf h c) c" using ho same(3) unfolding heapOrder_def by auto
    moreover have "0 \<le> parentOf h c \<and> parentOf h c < c"
      using parentOf_less[OF top, of c] c by blast
    then have "slotValue h' (parentOf h c) = slotValue h (parentOf h c)"
      using sv c by auto
    moreover have "slotValue h' c = slotValue h c" using sv c by auto
    ultimately show "lesseq h' (parentOf h c) c"
      using lesseq_cong[OF _ _ same(2)] by blast
  qed
qed

lemma frame_vacant:
  assumes "frame h h'" "vacant h"
  shows "vacant h'"
  using assms unfolding frame_def vacant_def by auto

lemma keys_occupied:
  assumes occ: "occupied h" and k: "k \<in> keys h"
  shows "0 \<le> k \<and> k < N h \<and> (\<exists>s v. 0 \<le> s \<and> s < sz h \<and> im h s = Some k \<and> pm h k = Some s \<and>
           values_h h k = Some (Some v))"
proof -
  from k obtain s where s: "0 \<le> s" "s < sz h" "im h s = Some k"
    unfolding keys_def by blast
  from occ s(1,2) obtain k' v where "im h s = Some k'" "0 \<le> k'" "k' < N h" "pm h k' = Some s"
    "values_h h k' = Some (Some v)" by (rule occupiedD)
  then show ?thesis using s by auto
qed

lemma keys_card:
  assumes occ: "occupied h"
  shows "card (keys h) = nat (sz h)" "keys h \<subseteq> {0..<N h}"
proof -
  define f where "f = (\<lambda>s. the (im h s))"
  have img: "keys h = f ` {0..<sz h}"
  proof (rule set_eqI)
    fix k
    show "k \<in> keys h \<longleftrightarrow> k \<in> f ` {0..<sz h}"
    proof
      assume "k \<in> keys h"
      then obtain s where "0 \<le> s" "s < sz h" "im h s = Some k" unfolding keys_def by blast
      then have "f s = k" "s \<in> {0..<sz h}" by (simp_all add: f_def)
      then show "k \<in> f ` {0..<sz h}" by blast
    next
      assume "k \<in> f ` {0..<sz h}"
      then obtain s where s: "0 \<le> s" "s < sz h" "k = f s" by auto
      from occ s(1,2) obtain k' v where "im h s = Some k'" by (rule occupiedD)
      then have "im h s = Some k" using s(3) by (simp add: f_def)
      then show "k \<in> keys h" using s(1,2) unfolding keys_def by blast
    qed
  qed
  have inj: "inj_on f {0..<sz h}"
  proof (rule inj_onI)
    fix s t assume s: "s \<in> {0..<sz h}" and t: "t \<in> {0..<sz h}" and e: "f s = f t"
    from occ s obtain ks vs where ks: "im h s = Some ks" "pm h ks = Some s"
      by (auto elim: occupiedD)
    from occ t obtain kt vt where kt: "im h t = Some kt" "pm h kt = Some t"
      by (auto elim: occupiedD)
    from e ks(1) kt(1) have "ks = kt" by (simp add: f_def)
    then show "s = t" using ks(2) kt(2) by simp
  qed
  show "card (keys h) = nat (sz h)"
    unfolding img using card_image[OF inj] by simp
  show "keys h \<subseteq> {0..<N h}"
    using keys_occupied[OF occ] by auto
qed

lemma full_keys:
  assumes occ: "occupied h" and full: "sz h = N h" and k: "0 \<le> k" "k < N h"
  shows "k \<in> keys h"
proof -
  have "card (keys h) = card {0..<N h}"
    using keys_card(1)[OF occ] full by simp
  then have "keys h = {0..<N h}"
    using keys_card(2)[OF occ] by (simp add: card_subset_eq)
  then show ?thesis using k by simp
qed

lemma active_slot:
  assumes occ: "occupied h" and vac: "vacant h" and k: "0 \<le> k" "k < N h"
    and act: "pm h k \<noteq> Some (- 1)"
  shows "\<exists>s v. 0 \<le> s \<and> s < sz h \<and> im h s = Some k \<and> pm h k = Some s \<and>
           values_h h k = Some (Some v)"
proof -
  have "k \<in> keys h" using vac k act unfolding vacant_def by blast
  then show ?thesis using keys_occupied[OF occ] by blast
qed

lemma inactive_not_key:
  assumes occ: "occupied h" and "pm h k = Some (- 1)"
  shows "k \<notin> keys h"
  using keys_occupied[OF occ, of k] assms(2) by auto

subsection \<open>Every mutating operation returns and keeps the invariant\<close>

lemma heap_invD:
  assumes "heap_inv h"
  shows "topology h" "occupied h" "vacant h" "heapOrder h"
  using assms by (simp_all add: heap_inv_def)

lemma insert_h_inv:
  assumes inv: "heap_inv h" and con: "consistent (compare h)"
  shows "\<exists>r h'. insert_h h ki v = Some (r, h') \<and> heap_inv h' \<and> compare h' = compare h"
proof (cases "contains h ki")
  case (Inl e)
  then show ?thesis using inv by (simp add: insert_h_def)
next
  case (Inr b)
  note top = heap_invD(1)[OF inv] and occ = heap_invD(2)[OF inv]
    and vac = heap_invD(3)[OF inv] and ho = heap_invD(4)[OF inv]
  show ?thesis
  proof (cases "b \<or> v = None")
    case True
    then show ?thesis using inv Inr
      by (auto simp: insert_h_def valueNotNullOrThrow_def)
  next
    case False
    then obtain x where v: "v = Some x" and b: "\<not> b" by auto
    from Inr b have k: "0 \<le> ki" "ki < N h" "pm h ki = Some (- 1)"
      by (auto simp: contains_def keyInBoundsOrThrow_def split: if_splits)
    have nk: "ki \<notin> keys h" using inactive_not_key[OF occ k(3)] .
    have lt: "sz h < N h"
    proof (rule ccontr)
      assume "\<not> sz h < N h"
      then have "sz h = N h" using occ unfolding occupied_def by simp
      then show False using full_keys[OF occ _ k(1,2)] nk by simp
    qed
    have s0: "0 \<le> sz h" using occ unfolding occupied_def by simp
    define h4 where "h4 = h\<lparr>pm := (pm h)(ki \<mapsto> sz h),
      im := (im h)(sz h \<mapsto> ki), values_h := (values_h h)(ki \<mapsto> Some x), sz := sz h + 1\<rparr>"
    have ins: "insert_h h ki v = do { h5 \<leftarrow> swim h4 (sz h); Some (Inr (), h5) }"
      using Inr b v by (simp add: insert_h_def valueNotNullOrThrow_def h4_def)
    have old: "\<And>s. 0 \<le> s \<Longrightarrow> s < sz h \<Longrightarrow>
        \<exists>k v. im h4 s = Some k \<and> 0 \<le> k \<and> k < N h4 \<and> pm h4 k = Some s \<and>
               values_h h4 k = Some (Some v) \<and> im h s = Some k \<and> values_h h k = Some (Some v)"
    proof -
      fix s assume s: "0 \<le> s" "s < sz h"
      from occ s obtain k' v' where k': "im h s = Some k'" "0 \<le> k'" "k' < N h"
        "pm h k' = Some s" "values_h h k' = Some (Some v')" by (rule occupiedD)
      then have "k' \<noteq> ki" using k(3) s by auto
      then show "\<exists>k v. im h4 s = Some k \<and> 0 \<le> k \<and> k < N h4 \<and> pm h4 k = Some s \<and>
               values_h h4 k = Some (Some v) \<and> im h s = Some k \<and> values_h h k = Some (Some v)"
        using k' s by (auto simp: h4_def)
    qed
    have occ4: "occupied h4"
      unfolding occupied_def
    proof (intro conjI allI impI)
      show "0 \<le> sz h4" "sz h4 \<le> N h4" using s0 lt by (simp_all add: h4_def)
    next
      fix s assume "0 \<le> s \<and> s < sz h4"
      then have "s = sz h \<or> (0 \<le> s \<and> s < sz h)" by (auto simp: h4_def)
      then show "\<exists>k v. im h4 s = Some k \<and> 0 \<le> k \<and> k < N h4 \<and> pm h4 k = Some s \<and>
               values_h h4 k = Some (Some v)"
      proof
        assume "s = sz h"
        then show ?thesis using k by (simp add: h4_def)
      next
        assume "0 \<le> s \<and> s < sz h"
        then show ?thesis using old[of s] by blast
      qed
    qed
    have top4: "topology h4" using top by (simp add: topology_def h4_def)
    have keys4: "keys h4 = insert ki (keys h)"
    proof (rule set_eqI)
      fix k
      show "k \<in> keys h4 \<longleftrightarrow> k \<in> insert ki (keys h)"
      proof
        assume "k \<in> keys h4"
        then obtain s where "0 \<le> s" "s < sz h + 1" "im h4 s = Some k"
          by (auto simp: keys_def h4_def)
        then have "k = ki \<or> (0 \<le> s \<and> s < sz h \<and> im h s = Some k)"
          by (cases "s = sz h") (auto simp: h4_def)
        then show "k \<in> insert ki (keys h)" unfolding keys_def by blast
      next
        assume "k \<in> insert ki (keys h)"
        then have "k = ki \<or> (\<exists>s. 0 \<le> s \<and> s < sz h \<and> im h s = Some k)"
          unfolding keys_def by blast
        then show "k \<in> keys h4"
        proof
          assume "k = ki"
          then have "im h4 (sz h) = Some k" "sz h < sz h4" by (simp_all add: h4_def)
          then show ?thesis using s0 unfolding keys_def by blast
        next
          assume "\<exists>s. 0 \<le> s \<and> s < sz h \<and> im h s = Some k"
          then obtain s where "0 \<le> s" "s < sz h" "im h s = Some k" by blast
          then have "im h4 s = Some k" "s < sz h4" by (simp_all add: h4_def)
          then show ?thesis using \<open>0 \<le> s\<close> unfolding keys_def by blast
        qed
      qed
    qed
    have vac4: "vacant h4"
      using vac unfolding vacant_def keys4 by (auto simp: h4_def)
    have sv: "\<forall>s. 0 \<le> s \<and> s < sz h4 \<and> s \<noteq> sz h \<longrightarrow> slotValue h4 s = slotValue h s"
    proof (intro allI impI)
      fix s assume "0 \<le> s \<and> s < sz h4 \<and> s \<noteq> sz h"
      then have "0 \<le> s" "s < sz h" by (simp_all add: h4_def)
      from old[OF this] show "slotValue h4 s = slotValue h s"
        by (auto simp: slotValue_def valueAt_def)
    qed
    have exc4: "exceptAt h4 (sz h)"
      by (rule exceptAt_transfer[OF heapOrder_exceptAt(1)[OF con top ho] top _ _ _ sv])
         (simp_all add: h4_def)
    have kids4: "childrenOk h4 (sz h)"
      unfolding childrenOk_def
    proof (intro allI impI)
      fix c assume c: "0 < c \<and> c < sz h4 \<and> parentOf h4 c = sz h"
      then have "sz h < c" using parentOf_less[OF top4, of c] by auto
      then show "lesseq h4 (sz h) c" using c by (simp add: h4_def)
    qed
    have con4: "consistent (compare h4)" using con by (simp add: h4_def)
    have "sz h < sz h4" by (simp add: h4_def)
    from swim_spec[OF con4 top4 occ4 s0 this exc4 kids4] obtain h5 where
      h5: "swim h4 (sz h) = Some h5" "occupied h5" "frame h4 h5" "heapOrder h5" by blast
    have "heap_inv h5"
      using h5 frame_topology[OF h5(3) top4] frame_vacant[OF h5(3) vac4]
      by (simp add: heap_inv_def)
    moreover have "compare h5 = compare h" using h5(3) by (simp add: frame_def h4_def)
    ultimately show ?thesis using ins h5(1) by simp
  qed
qed

lemma keyExists_active:
  assumes "keyExistsOrThrow h ki = Inr u"
  shows "0 \<le> ki" "ki < N h" "pm h ki \<noteq> Some (- 1)"
  using assms
  by (auto simp: keyExistsOrThrow_def contains_def keyInBoundsOrThrow_def split: if_splits)

lemma set_value:
  assumes top: "topology h" and occ: "occupied h" and vac: "vacant h"
    and i: "0 \<le> i" "i < sz h" "im h i = Some ki"
    and h1_def: "h1 = h\<lparr>values_h := (values_h h)(ki \<mapsto> Some x)\<rparr>"
  shows "topology h1" "occupied h1" "vacant h1" "slotValue h1 i = Some x"
    "\<forall>s. 0 \<le> s \<and> s < sz h1 \<and> s \<noteq> i \<longrightarrow> slotValue h1 s = slotValue h s"
proof -
  show "topology h1" using top by (simp add: topology_def h1_def)
  have pmk: "pm h ki = Some i" using occ i by (auto elim: occupiedD)
  have other: "\<And>s k. 0 \<le> s \<Longrightarrow> s < sz h \<Longrightarrow> s \<noteq> i \<Longrightarrow> im h s = Some k \<Longrightarrow> k \<noteq> ki"
  proof -
    fix s k assume s: "0 \<le> s" "s < sz h" "s \<noteq> i" "im h s = Some k"
    from occ s(1,2) obtain k' v' where "im h s = Some k'" "pm h k' = Some s" by (rule occupiedD)
    then show "k \<noteq> ki" using s(3,4) pmk by auto
  qed
  show "occupied h1"
    unfolding occupied_def
  proof (intro conjI allI impI)
    show "0 \<le> sz h1" "sz h1 \<le> N h1" using occ by (simp_all add: occupied_def h1_def)
  next
    fix s assume "0 \<le> s \<and> s < sz h1"
    then have s: "0 \<le> s" "s < sz h" by (simp_all add: h1_def)
    from occ s obtain k v where "im h s = Some k" "0 \<le> k" "k < N h" "pm h k = Some s"
      "values_h h k = Some (Some v)" by (rule occupiedD)
    then show "\<exists>k v. im h1 s = Some k \<and> 0 \<le> k \<and> k < N h1 \<and> pm h1 k = Some s \<and>
               values_h h1 k = Some (Some v)"
      by (auto simp: h1_def)
  qed
  have "keys h1 = keys h" by (simp add: keys_def h1_def)
  moreover have "ki \<in> keys h" using i unfolding keys_def by blast
  ultimately show "vacant h1"
    using vac unfolding vacant_def by (auto simp: h1_def)
  show "slotValue h1 i = Some x"
    using i(3) by (simp add: slotValue_def valueAt_def h1_def)
  show "\<forall>s. 0 \<le> s \<and> s < sz h1 \<and> s \<noteq> i \<longrightarrow> slotValue h1 s = slotValue h s"
  proof (intro allI impI)
    fix s assume "0 \<le> s \<and> s < sz h1 \<and> s \<noteq> i"
    then have s: "0 \<le> s" "s < sz h" "s \<noteq> i" by (simp_all add: h1_def)
    from occ s(1,2) obtain k v where k: "im h s = Some k" by (rule occupiedD)
    then have "k \<noteq> ki" using other[OF s k] by simp
    then show "slotValue h1 s = slotValue h s"
      using k by (simp add: slotValue_def valueAt_def h1_def)
  qed
qed

lemma exceptAt_set_value:
  assumes con: "consistent (compare h)" and top: "topology h" and ho: "heapOrder h"
    and "D h1 = D h" "compare h1 = compare h" "sz h1 = sz h"
    and "\<forall>s. 0 \<le> s \<and> s < sz h1 \<and> s \<noteq> i \<longrightarrow> slotValue h1 s = slotValue h s"
  shows "exceptAt h1 i"
  by (rule exceptAt_transfer[OF heapOrder_exceptAt(1)[OF con top ho] top]) (use assms in simp_all)

lemma update_h_inv:
  assumes inv: "heap_inv h" and con: "consistent (compare h)"
  shows "\<exists>r h'. update_h h ki v = Some (r, h') \<and> heap_inv h' \<and> compare h' = compare h"
proof (cases "keyExistsAndValueNotNullOrThrow h ki v")
  case (Inl e)
  then show ?thesis using inv by (simp add: update_h_def)
next
  case (Inr u)
  note top = heap_invD(1)[OF inv] and occ = heap_invD(2)[OF inv]
    and vac = heap_invD(3)[OF inv] and ho = heap_invD(4)[OF inv]
  from Inr obtain u' where ke: "keyExistsOrThrow h ki = Inr u'"
    by (auto simp: keyExistsAndValueNotNullOrThrow_def split: sum.splits)
  from Inr obtain x where v: "v = Some x"
    by (auto simp: keyExistsAndValueNotNullOrThrow_def valueNotNullOrThrow_def
        split: sum.splits if_splits)
  from active_slot[OF occ vac keyExists_active[OF ke]] obtain i old where
    i: "0 \<le> i" "i < sz h" "im h i = Some ki" "pm h ki = Some i"
    "values_h h ki = Some (Some old)" by blast
  define h1 where "h1 = h\<lparr>values_h := (values_h h)(ki \<mapsto> Some x)\<rparr>"
  note sv = set_value[OF top occ vac i(1,2,3) h1_def]
  have same: "D h1 = D h" "compare h1 = compare h" "sz h1 = sz h" by (simp_all add: h1_def)
  have con1: "consistent (compare h1)" using con same by simp
  have i1: "i < sz h1" using i same by simp
  have exc: "exceptAt h1 i"
    by (rule exceptAt_set_value[OF con top ho same sv(5)])
  from sink_spec[OF con1 sv(1,2) i(1) i1 exc] obtain h2 where
    h2: "sink h1 i = Some h2" "occupied h2" "frame h1 h2"
    "heapOrder h2 \<or> (h2 = h1 \<and> childrenOk h1 i)" by blast
  have top2: "topology h2" using frame_topology[OF h2(3) sv(1)] .
  have con2: "consistent (compare h2)" using con1 h2(3) by (simp add: frame_def)
  have i2: "i < sz h2" using i1 h2(3) by (simp add: frame_def)
  have "exceptAt h2 i \<and> childrenOk h2 i"
    using h2(4) heapOrder_exceptAt[OF con2 top2] exc by blast
  then obtain h3 where h3: "swim h2 i = Some h3" "occupied h3" "frame h2 h3" "heapOrder h3"
    using swim_spec[OF con2 top2 h2(2) i(1) i2] by blast
  have fr: "frame h1 h3" using frame_trans[OF h2(3) h3(3)] .
  have "heap_inv h3"
    using h3 frame_topology[OF fr sv(1)] frame_vacant[OF fr sv(3)]
    by (simp add: heap_inv_def)
  moreover have "compare h3 = compare h" using fr same by (simp add: frame_def)
  moreover have "update_h h ki v = Some (Inr old, h3)"
    using Inr i(4,5) v h2(1) h3(1) by (simp add: update_h_def valueAt_def h1_def)
  ultimately show ?thesis by blast
qed

lemma decrease_inv:
  assumes inv: "heap_inv h" and con: "consistent (compare h)"
  shows "\<exists>r h'. decrease h ki v = Some (r, h') \<and> heap_inv h' \<and> compare h' = compare h"
proof (cases "keyExistsAndValueNotNullOrThrow h ki v")
  case (Inl e)
  then show ?thesis using inv by (simp add: decrease_def)
next
  case (Inr u)
  note top = heap_invD(1)[OF inv] and occ = heap_invD(2)[OF inv]
    and vac = heap_invD(3)[OF inv] and ho = heap_invD(4)[OF inv]
  from Inr obtain u' where ke: "keyExistsOrThrow h ki = Inr u'"
    by (auto simp: keyExistsAndValueNotNullOrThrow_def split: sum.splits)
  from Inr obtain x where v: "v = Some x"
    by (auto simp: keyExistsAndValueNotNullOrThrow_def valueNotNullOrThrow_def
        split: sum.splits if_splits)
  from active_slot[OF occ vac keyExists_active[OF ke]] obtain i old where
    i: "0 \<le> i" "i < sz h" "im h i = Some ki" "pm h ki = Some i"
    "values_h h ki = Some (Some old)" by blast
  show ?thesis
  proof (cases "compare h x old < 0")
    case False
    then have "decrease h ki v = Some (Inr (), h)"
      using Inr i(5) v by (simp add: decrease_def valueAt_def lessValue_def)
    then show ?thesis using inv by simp
  next
    case True
    define h1 where "h1 = h\<lparr>values_h := (values_h h)(ki \<mapsto> Some x)\<rparr>"
    note sv = set_value[OF top occ vac i(1,2,3) h1_def]
    have same: "D h1 = D h" "compare h1 = compare h" "sz h1 = sz h" by (simp_all add: h1_def)
    have con1: "consistent (compare h1)" using con same by simp
    have i1: "i < sz h1" using i same by simp
    have exc: "exceptAt h1 i"
      by (rule exceptAt_set_value[OF con top ho same sv(5)])
    have oldv: "slotValue h i = Some old"
      using i by (simp add: slotValue_def valueAt_def)
    have xo: "compare h x old \<le> 0" using True by simp
    have po: "parentOf h1 = parentOf h" by (simp add: parentOf_def h1_def fun_eq_iff)
    have kids: "childrenOk h1 i"
      unfolding childrenOk_def po
    proof (intro allI impI)
      fix c assume c: "0 < c \<and> c < sz h1 \<and> parentOf h c = i"
      then have ic: "i < c" using parentOf_less[OF top, of c] by auto
      have "lesseq h i c" using ho c same unfolding heapOrder_def by auto
      then obtain b where b: "slotValue h c = Some b" "compare h old b \<le> 0"
        using oldv unfolding lesseq_def by auto
      have "compare h x b \<le> 0"
        using con xo b(2) unfolding consistent_def by blast
      moreover have "slotValue h1 c = Some b" using sv(5) c ic b(1) by auto
      ultimately show "lesseq h1 i c"
        using sv(4) same unfolding lesseq_def by simp
    qed
    from swim_spec[OF con1 sv(1,2) i(1) i1 exc kids] obtain h2 where
      h2: "swim h1 i = Some h2" "occupied h2" "frame h1 h2" "heapOrder h2" by blast
    have "heap_inv h2"
      using h2 frame_topology[OF h2(3) sv(1)] frame_vacant[OF h2(3) sv(3)]
      by (simp add: heap_inv_def)
    moreover have "compare h2 = compare h" using h2(3) same by (simp add: frame_def)
    moreover have "decrease h ki v = Some (Inr (), h2)"
      using Inr i(4,5) v True h2(1)
      by (simp add: decrease_def valueAt_def lessValue_def h1_def)
    ultimately show ?thesis by blast
  qed
qed

lemma increase_inv:
  assumes inv: "heap_inv h" and con: "consistent (compare h)"
  shows "\<exists>r h'. increase h ki v = Some (r, h') \<and> heap_inv h' \<and> compare h' = compare h"
proof (cases "keyExistsAndValueNotNullOrThrow h ki v")
  case (Inl e)
  then show ?thesis using inv by (simp add: increase_def)
next
  case (Inr u)
  note top = heap_invD(1)[OF inv] and occ = heap_invD(2)[OF inv]
    and vac = heap_invD(3)[OF inv] and ho = heap_invD(4)[OF inv]
  from Inr obtain u' where ke: "keyExistsOrThrow h ki = Inr u'"
    by (auto simp: keyExistsAndValueNotNullOrThrow_def split: sum.splits)
  from Inr obtain x where v: "v = Some x"
    by (auto simp: keyExistsAndValueNotNullOrThrow_def valueNotNullOrThrow_def
        split: sum.splits if_splits)
  from active_slot[OF occ vac keyExists_active[OF ke]] obtain i old where
    i: "0 \<le> i" "i < sz h" "im h i = Some ki" "pm h ki = Some i"
    "values_h h ki = Some (Some old)" by blast
  show ?thesis
  proof (cases "compare h old x < 0")
    case False
    then have "increase h ki v = Some (Inr (), h)"
      using Inr i(5) v by (simp add: increase_def valueAt_def lessValue_def)
    then show ?thesis using inv by simp
  next
    case True
    define h1 where "h1 = h\<lparr>values_h := (values_h h)(ki \<mapsto> Some x)\<rparr>"
    note sv = set_value[OF top occ vac i(1,2,3) h1_def]
    have same: "D h1 = D h" "compare h1 = compare h" "sz h1 = sz h" by (simp_all add: h1_def)
    have con1: "consistent (compare h1)" using con same by simp
    have i1: "i < sz h1" using i same by simp
    have exc: "exceptAt h1 i"
      by (rule exceptAt_set_value[OF con top ho same sv(5)])
    have oldv: "slotValue h i = Some old"
      using i by (simp add: slotValue_def valueAt_def)
    have ox: "compare h old x \<le> 0" using True by simp
    have po: "parentOf h1 = parentOf h" by (simp add: parentOf_def h1_def fun_eq_iff)
    have edge: "0 < i \<and> i < sz h1 \<longrightarrow> lesseq h1 (parentOf h1 i) i"
      unfolding po
    proof
      assume pos: "0 < i \<and> i < sz h1"
      then have p: "0 \<le> parentOf h i" "parentOf h i < i"
        using parentOf_less[OF top, of i] by auto
      have "lesseq h (parentOf h i) i" using ho pos same unfolding heapOrder_def by auto
      then obtain a where a: "slotValue h (parentOf h i) = Some a" "compare h a old \<le> 0"
        using oldv unfolding lesseq_def by auto
      have "compare h a x \<le> 0"
        using con ox a(2) unfolding consistent_def by blast
      moreover have "slotValue h1 (parentOf h i) = Some a" using sv(5) p i1 a(1) by auto
      ultimately show "lesseq h1 (parentOf h i) i"
        using sv(4) same unfolding lesseq_def by simp
    qed
    from sink_spec[OF con1 sv(1,2) i(1) i1 exc] obtain h2 where
      h2: "sink h1 i = Some h2" "occupied h2" "frame h1 h2"
      "heapOrder h2 \<or> (h2 = h1 \<and> childrenOk h1 i)" by blast
    have "heapOrder h2"
      using h2(4) heapOrder_from[OF exc _ edge] by blast
    then have "heap_inv h2"
      using h2 frame_topology[OF h2(3) sv(1)] frame_vacant[OF h2(3) sv(3)]
      by (simp add: heap_inv_def)
    moreover have "compare h2 = compare h" using h2(3) same by (simp add: frame_def)
    moreover have "increase h ki v = Some (Inr (), h2)"
      using Inr i(4,5) v True h2(1)
      by (simp add: increase_def valueAt_def lessValue_def h1_def)
    ultimately show ?thesis by blast
  qed
qed

lemma detached_frame:
  assumes "detached h ki" "frame h h'"
  shows "detached h' ki"
  using assms unfolding detached_def frame_def by auto

lemma swap_h_sz:
  "swap_h (h\<lparr>sz := n\<rparr>) i j = map_option (\<lambda>h'. h'\<lparr>sz := n\<rparr>) (swap_h h i j)"
  by (cases "im h i"; cases "im h j") (simp_all add: swap_h_def)

lemma swap_h_im:
  assumes "swap_h h i j = Some h'"
  shows "im h' = (im h)(i := im h j, j := im h i)" "values_h h' = values_h h"
  using assms by (auto simp: swap_h_def split: bind_splits)

lemma cleanup_inv:
  assumes top: "topology h" and occ: "occupied h" and ho: "heapOrder h"
    and det: "detached h ki"
    and h7: "h7 = h\<lparr>values_h := (values_h h)(ki \<mapsto> None), pm := (pm h)(ki \<mapsto> - 1),
                     im := (im h)(sz h \<mapsto> - 1)\<rparr>"
  shows "heap_inv h7"
proof -
  have top7: "topology h7" using top by (simp add: topology_def h7)
  have nk: "ki \<notin> keys h" using det unfolding detached_def by simp
  have occ7: "occupied h7"
    unfolding occupied_def
  proof (intro conjI allI impI)
    show "0 \<le> sz h7" "sz h7 \<le> N h7" using occ by (simp_all add: occupied_def h7)
  next
    fix s assume "0 \<le> s \<and> s < sz h7"
    then have s: "0 \<le> s" "s < sz h" by (simp_all add: h7)
    from occ s obtain k v where k: "im h s = Some k" "0 \<le> k" "k < N h" "pm h k = Some s"
      "values_h h k = Some (Some v)" by (rule occupiedD)
    then have "k \<in> keys h" using s unfolding keys_def by blast
    then have "k \<noteq> ki" using nk by auto
    then show "\<exists>k v. im h7 s = Some k \<and> 0 \<le> k \<and> k < N h7 \<and> pm h7 k = Some s \<and>
               values_h h7 k = Some (Some v)"
      using k s by (auto simp: h7)
  qed
  have im7: "\<And>s. s < sz h \<Longrightarrow> im h7 s = im h s" by (simp add: h7)
  have sz7: "sz h7 = sz h" by (simp add: h7)
  have keys7: "keys h7 = keys h"
    unfolding keys_def sz7 using im7 by auto
  have vac7: "vacant h7"
    unfolding vacant_def keys7 using det unfolding detached_def by (auto simp: h7)
  have sv: "\<forall>s. 0 \<le> s \<and> s < sz h7 \<longrightarrow> slotValue h7 s = slotValue h s"
  proof (intro allI impI)
    fix s assume "0 \<le> s \<and> s < sz h7"
    then have s: "0 \<le> s" "s < sz h" by (simp_all add: h7)
    from occ s obtain k where k: "im h s = Some k" by (auto elim: occupiedD)
    then have "k \<in> keys h" using s unfolding keys_def by blast
    then have "k \<noteq> ki" using nk by auto
    then show "slotValue h7 s = slotValue h s"
      using k s by (simp add: slotValue_def valueAt_def h7)
  qed
  have "heapOrder h7"
    by (rule heapOrder_transfer[OF ho top _ _ _ sv]) (simp_all add: h7)
  then show ?thesis using top7 occ7 vac7 by (simp add: heap_inv_def)
qed

lemma detach:
  assumes inv: "heap_inv h"
    and i: "0 \<le> i" "i < sz h" "im h i = Some ki"
  shows "\<exists>h2. swap_h (h\<lparr>sz := sz h - 1\<rparr>) i (sz h - 1) = Some h2 \<and> topology h2 \<and> occupied h2 \<and>
           detached h2 ki \<and> sz h2 = sz h - 1 \<and> compare h2 = compare h \<and> D h2 = D h \<and>
           values_h h2 = values_h h \<and>
           (\<forall>s. 0 \<le> s \<and> s < sz h \<and> s \<noteq> i \<and> s \<noteq> sz h - 1 \<longrightarrow> slotValue h2 s = slotValue h s) \<and>
           slotValue h2 (sz h - 1) = slotValue h i"
proof -
  note top = heap_invD(1)[OF inv] and occ = heap_invD(2)[OF inv]
    and vac = heap_invD(3)[OF inv] and ho = heap_invD(4)[OF inv]
  define n where "n = sz h - 1"
  have n: "0 \<le> n" "n < sz h" using i by (simp_all add: n_def)
  from swap_h_occupied[OF occ i(1,2) n] obtain hs where
    hs: "swap_h h i n = Some hs" "occupied hs" "frame h hs"
    "\<forall>s. slotValue hs s = slotValue h (if s = i then n else if s = n then i else s)"
    by blast
  define h2 where "h2 = hs\<lparr>sz := n\<rparr>"
  have sw: "swap_h (h\<lparr>sz := sz h - 1\<rparr>) i (sz h - 1) = Some h2"
    using hs(1) by (simp add: swap_h_sz h2_def n_def)
  have fr: "sz hs = sz h" "N hs = N h" "D hs = D h" "compare hs = compare h"
    "values_h hs = values_h h" "keys hs = keys h"
    using hs(3) by (simp_all add: frame_def)
  have top2: "topology h2"
    using frame_topology[OF hs(3) top] by (simp add: topology_def h2_def)
  have occ2: "occupied h2"
    using hs(2) n fr(1) unfolding occupied_def by (auto simp: h2_def)
  have imn: "im hs n = Some ki"
    using swap_h_im(1)[OF hs(1)] i(3) by (auto simp: fun_upd_def)
  have pmki: "pm hs ki = Some n"
    using hs(2) imn n fr(1) by (auto elim: occupiedD)
  have nk: "ki \<notin> keys h2"
  proof
    assume "ki \<in> keys h2"
    then obtain s where s: "0 \<le> s" "s < n" "im hs s = Some ki"
      by (auto simp: keys_def h2_def)
    then have "pm hs ki = Some s" using hs(2) fr(1) n by (auto elim: occupiedD)
    then show False using pmki s by simp
  qed
  have keys2: "keys hs = insert ki (keys h2)"
  proof (rule set_eqI)
    fix k
    show "k \<in> keys hs \<longleftrightarrow> k \<in> insert ki (keys h2)"
    proof
      assume "k \<in> keys hs"
      then obtain s where s: "0 \<le> s" "s < sz h" "im hs s = Some k"
        using fr(1) by (auto simp: keys_def)
      then have "s = n \<or> (0 \<le> s \<and> s < n)" by (auto simp: n_def)
      then show "k \<in> insert ki (keys h2)"
        using s(3) imn by (auto simp: keys_def h2_def)
    next
      assume "k \<in> insert ki (keys h2)"
      then have "k = ki \<or> (\<exists>s. 0 \<le> s \<and> s < n \<and> im hs s = Some k)"
        by (auto simp: keys_def h2_def)
      then show "k \<in> keys hs"
        using imn n fr(1) unfolding keys_def by auto
    qed
  qed
  have kb: "0 \<le> ki \<and> ki < N h" using occ i by (auto elim: occupiedD)
  have det: "detached h2 ki"
    unfolding detached_def
  proof (intro conjI allI impI)
    show "0 \<le> ki" "ki < N h2" using kb fr(2) by (simp_all add: h2_def)
    show "sz h2 < N h2" using n occ fr(2) by (simp add: h2_def occupied_def)
    show "im h2 (sz h2) = Some ki" using imn by (simp add: h2_def)
    show "ki \<notin> keys h2" using nk .
  next
    fix s assume "sz h2 < s \<and> s < N h2"
    then have s: "sz h \<le> s" "s < N h" using fr(2) by (simp_all add: h2_def n_def)
    then have "im hs s = im h s" using hs(3) unfolding frame_def by auto
    then show "im h2 s = Some (- 1)" using vac s unfolding vacant_def by (simp add: h2_def)
  next
    fix k assume k: "0 \<le> k \<and> k < N h2 \<and> k \<notin> keys h2 \<and> k \<noteq> ki"
    then have nk: "k \<notin> keys h" using keys2 fr(6) by auto
    then have "pm hs k = pm h k" using hs(3) unfolding frame_def by auto
    moreover have "pm h k = Some (- 1) \<and> values_h h k = Some None"
      using vac nk k fr(2) unfolding vacant_def by (simp add: h2_def)
    ultimately show "pm h2 k = Some (- 1)" "values_h h2 k = Some None"
      using fr(5) by (simp_all add: h2_def)
  qed
  have sv2: "\<And>s. slotValue h2 s = slotValue hs s"
    by (simp add: slotValue_def valueAt_def h2_def)
  have "\<forall>s. 0 \<le> s \<and> s < sz h \<and> s \<noteq> i \<and> s \<noteq> sz h - 1 \<longrightarrow> slotValue h2 s = slotValue h s"
    using hs(4) sv2 by (simp add: n_def)
  moreover have "slotValue h2 (sz h - 1) = slotValue h i"
    using hs(4) sv2 by (simp add: n_def)
  moreover have "sz h2 = sz h - 1" "compare h2 = compare h" "D h2 = D h"
    "values_h h2 = values_h h"
    using fr by (simp_all add: h2_def n_def)
  ultimately show ?thesis using sw top2 occ2 det by blast
qed

lemma delete_h_active:
  assumes inv: "heap_inv h" and con: "consistent (compare h)"
    and i: "0 \<le> i" "i < sz h" "im h i = Some ki" "pm h ki = Some i"
      "values_h h ki = Some (Some old)"
    and ke: "keyExistsOrThrow h ki = Inr u"
  shows "\<exists>h'. delete_h h ki = Some (Inr old, h') \<and> heap_inv h' \<and> compare h' = compare h \<and>
           sz h' = sz h - 1"
proof -
  note top = heap_invD(1)[OF inv] and occ = heap_invD(2)[OF inv]
    and vac = heap_invD(3)[OF inv] and ho = heap_invD(4)[OF inv]
  from detach[OF inv i(1,2,3)] obtain h2 where
    sw: "swap_h (h\<lparr>sz := sz h - 1\<rparr>) i (sz h - 1) = Some h2" and top2: "topology h2"
    and occ2: "occupied h2" and det2: "detached h2 ki" and
    same: "sz h2 = sz h - 1" "compare h2 = compare h" "D h2 = D h" "values_h h2 = values_h h"
    and sv: "\<forall>s. 0 \<le> s \<and> s < sz h \<and> s \<noteq> i \<and> s \<noteq> sz h - 1 \<longrightarrow> slotValue h2 s = slotValue h s"
    and svn: "slotValue h2 (sz h - 1) = slotValue h i"
    by blast
  have con2: "consistent (compare h2)" using con same by simp
  have "\<exists>h4. sink h2 i \<bind> (\<lambda>h3. swim h3 i) = Some h4 \<and> occupied h4 \<and> frame h2 h4 \<and> heapOrder h4"
  proof (cases "i = sz h - 1")
    case True
    have d1: "1 \<le> D h2" using top2 unfolding topology_def by simp
    have iN: "i < N h2" using det2 True same unfolding detached_def by simp
    have ch: "child h2 i = Some (i * D h2 + 1)"
      using top2 i(1) iN unfolding topology_def by simp
    have "i * 1 \<le> i * D h2" using d1 i(1) by (rule mult_left_mono)
    then have nlt: "\<not> i * D h2 + 1 < min (sz h2) (i * D h2 + 1 + D h2)"
      using True same by simp
    have "minChildLoop h2 (min (sz h2) (i * D h2 + 1 + D h2)) (i * D h2 + 1) i (- 1) = Some (- 1)"
      by (subst minChildLoop.simps) (simp only: nlt if_False)
    then have "minChild h2 i = Some (- 1)"
      using ch by (simp add: minChild_def)
    then have sk: "sink h2 i = Some h2" by (subst sink.simps) simp
    have svs: "\<forall>s. 0 \<le> s \<and> s < sz h2 \<longrightarrow> slotValue h2 s = slotValue h s"
      using sv True same by simp
    have ho2: "heapOrder h2"
      by (rule heapOrder_transfer[OF ho top same(3,2) _ svs]) (simp add: same)
    have "swim h2 i = Some h2"
    proof (cases "0 < i")
      case False
      then show ?thesis by (subst swim.simps) simp
    next
      case pos: True
      define p where "p = parentOf h i"
      have p: "0 \<le> p" "p < i" using parentOf_less[OF top pos] by (simp_all add: p_def)
      have par: "parent h2 i = Some p"
        using top2 i(1) iN same unfolding topology_def p_def parentOf_def by simp
      have "lesseq h p i" using ho pos i(2) unfolding heapOrder_def p_def by simp
      moreover have "slotValue h2 p = slotValue h p" using svs p True same by simp
      moreover have "slotValue h2 i = slotValue h i" using svn True by simp
      ultimately have le: "lesseq h2 p i"
        using lesseq_cong[OF _ _ same(2), of p i] by simp
      then obtain a b where "slotValue h2 p = Some a" "slotValue h2 i = Some b"
        unfolding lesseq_def by blast
      then have "less_h h2 i p = Some False"
        using less_h_slots[OF con2, of i b p a] le by simp
      then show ?thesis using pos par by (subst swim.simps) simp
    qed
    then show ?thesis using sk occ2 ho2 frame_refl by auto
  next
    case False
    then have i2: "i < sz h2" using i(2) same by simp
    have svi: "\<forall>s. 0 \<le> s \<and> s < sz h2 \<and> s \<noteq> i \<longrightarrow> slotValue h2 s = slotValue h s"
      using sv same by simp
    have exc: "exceptAt h2 i"
      by (rule exceptAt_transfer[OF heapOrder_exceptAt(1)[OF con top ho] top same(3,2) _ svi])
         (simp add: same)
    from sink_spec[OF con2 top2 occ2 i(1) i2 exc] obtain h3 where
      h3: "sink h2 i = Some h3" "occupied h3" "frame h2 h3"
      "heapOrder h3 \<or> (h3 = h2 \<and> childrenOk h2 i)" by blast
    have top3: "topology h3" using frame_topology[OF h3(3) top2] .
    have con3: "consistent (compare h3)" using con2 h3(3) by (simp add: frame_def)
    have i3: "i < sz h3" using i2 h3(3) by (simp add: frame_def)
    have "exceptAt h3 i \<and> childrenOk h3 i"
      using h3(4) heapOrder_exceptAt[OF con3 top3] exc by blast
    then obtain h4 where h4: "swim h3 i = Some h4" "occupied h4" "frame h3 h4" "heapOrder h4"
      using swim_spec[OF con3 top3 h3(2) i(1) i3] by blast
    then show ?thesis using h3(1) frame_trans[OF h3(3) h4(3)] by auto
  qed
  then obtain h4 where h4: "sink h2 i \<bind> (\<lambda>h3. swim h3 i) = Some h4" "occupied h4"
    "frame h2 h4" "heapOrder h4" by blast
  define h7 where "h7 = h4\<lparr>values_h := (values_h h4)(ki \<mapsto> None), pm := (pm h4)(ki \<mapsto> - 1),
                     im := (im h4)(sz h4 \<mapsto> - 1)\<rparr>"
  have inv7: "heap_inv h7"
    by (rule cleanup_inv[OF frame_topology[OF h4(3) top2] h4(2,4) detached_frame[OF det2 h4(3)] h7_def])
  have v4: "valueAt h4 ki = Some old"
    using h4(3) same i(5) by (simp add: frame_def valueAt_def)
  have "delete_h h ki = Some (Inr old, h7)"
    using ke i(4) sw h4(1) v4 by (auto simp: delete_h_def h7_def split: bind_splits)
  moreover have "compare h7 = compare h" "sz h7 = sz h - 1"
    using h4(3) same by (simp_all add: frame_def h7_def)
  ultimately show ?thesis using inv7 by blast
qed

lemma delete_h_inv:
  assumes inv: "heap_inv h" and con: "consistent (compare h)"
  shows "\<exists>r h'. delete_h h ki = Some (r, h') \<and> heap_inv h' \<and> compare h' = compare h"
proof (cases "keyExistsOrThrow h ki")
  case (Inl e)
  then show ?thesis using inv by (simp add: delete_h_def)
next
  case (Inr u)
  from active_slot[OF heap_invD(2,3)[OF inv] keyExists_active[OF Inr]] obtain i old where
    i: "0 \<le> i" "i < sz h" "im h i = Some ki" "pm h ki = Some i"
    "values_h h ki = Some (Some old)" by blast
  from delete_h_active[OF inv con i Inr] show ?thesis by blast
qed

lemma root_key:
  assumes inv: "heap_inv h" and ne: "sz h \<noteq> 0"
  shows "\<exists>k v u. im h 0 = Some k \<and> pm h k = Some 0 \<and> values_h h k = Some (Some v) \<and>
           keyExistsOrThrow h k = Inr u \<and> 0 < sz h"
proof -
  have pos: "0 < sz h" using heap_invD(2)[OF inv] ne unfolding occupied_def by simp
  from heap_invD(2)[OF inv] pos obtain k v where k: "im h 0 = Some k" "0 \<le> k" "k < N h"
    "pm h k = Some 0" "values_h h k = Some (Some v)" by (auto elim: occupiedD[of h 0])
  then have "keyExistsOrThrow h k = Inr ()"
    by (simp add: keyExistsOrThrow_def contains_def keyInBoundsOrThrow_def)
  then show ?thesis using k pos by blast
qed

lemma pollMinKeyIndex_inv:
  assumes inv: "heap_inv h" and con: "consistent (compare h)"
  shows "\<exists>r h'. pollMinKeyIndex h = Some (r, h') \<and> heap_inv h' \<and> compare h' = compare h"
proof (cases "sz h = 0")
  case True
  then show ?thesis using inv
    by (simp add: pollMinKeyIndex_def peekMinKeyIndex_def isNotEmptyOrThrow_def isEmpty_def)
next
  case False
  from root_key[OF inv False] obtain k v u where k: "im h 0 = Some k" "pm h k = Some 0"
    "values_h h k = Some (Some v)" "keyExistsOrThrow h k = Inr u" "0 < sz h" by blast
  from delete_h_active[OF inv con _ k(5) k(1,2,3,4)] obtain h' where
    "delete_h h k = Some (Inr v, h')" "heap_inv h'" "compare h' = compare h" by auto
  then show ?thesis using False k(1)
    by (simp add: pollMinKeyIndex_def peekMinKeyIndex_def isNotEmptyOrThrow_def isEmpty_def)
qed

lemma pollMinValue_inv:
  assumes inv: "heap_inv h" and con: "consistent (compare h)"
  shows "\<exists>r h'. pollMinValue h = Some (r, h') \<and> heap_inv h' \<and> compare h' = compare h"
proof (cases "sz h = 0")
  case True
  then show ?thesis using inv
    by (simp add: pollMinValue_def peekMinValue_def isNotEmptyOrThrow_def isEmpty_def)
next
  case False
  from root_key[OF inv False] obtain k v u where k: "im h 0 = Some k" "pm h k = Some 0"
    "values_h h k = Some (Some v)" "keyExistsOrThrow h k = Inr u" "0 < sz h" by blast
  from delete_h_active[OF inv con _ k(5) k(1,2,3,4)] obtain h' where
    "delete_h h k = Some (Inr v, h')" "heap_inv h'" "compare h' = compare h" by auto
  then show ?thesis using False k(1,3)
    by (simp add: pollMinValue_def peekMinValue_def peekMinKeyIndex_def isNotEmptyOrThrow_def
        isEmpty_def valueAt_def)
qed

subsection \<open>Evaluation on concrete heaps\<close>

text \<open>\<^verbatim>\<open>sink\<close> unfolded once, guarded by case distinctions so that rewriting stops until
  the state is concrete.\<close>

lemma sink_case:
  "sink h i =
     (case minChild h i of
        None \<Rightarrow> None
      | Some j \<Rightarrow>
          if j \<noteq> - 1 then (case swap_h h i j of None \<Rightarrow> None | Some h' \<Rightarrow> sink h' j)
          else Some h)"
  by (subst sink.simps) (simp split: option.splits bind_splits)

lemma constructor_closed:
  "constructor degree maxSize c =
     (if maxSize \<le> 0 then Inl InvalidCapacity
      else Inr \<lparr>sz = 0, N = max (max 2 degree + 1) maxSize, D = max 2 degree,
        child = (\<lambda>s. if 0 \<le> s \<and> s < max (max 2 degree + 1) maxSize
                      then Some (s * max 2 degree + 1) else None),
        parent = (\<lambda>s. if 0 \<le> s \<and> s < max (max 2 degree + 1) maxSize
                       then Some ((s - 1) div max 2 degree) else None),
        pm = (\<lambda>s. if 0 \<le> s \<and> s < max (max 2 degree + 1) maxSize then Some (- 1) else None),
        im = (\<lambda>s. if 0 \<le> s \<and> s < max (max 2 degree + 1) maxSize then Some (- 1) else None),
        values_h = (\<lambda>s. if 0 \<le> s \<and> s < max (max 2 degree + 1) maxSize
                         then Some None else None),
        compare = c\<rparr>)"
proof (cases "maxSize \<le> 0")
  case True
  then show ?thesis by (simp add: constructor_def)
next
  case False
  have "0 \<le> max (max 2 degree + 1) maxSize" by simp
  then show ?thesis
    using False by (simp add: constructor_def Let_def initLoop_closed cong: if_cong)
qed

lemmas eval_defs = insert_h_def contains_def keyInBoundsOrThrow_def valueNotNullOrThrow_def
  swim.simps less_h_def valueAt_def swap_h_def pollMinValue_def peekMinValue_def
  peekMinKeyIndex_def isNotEmptyOrThrow_def isEmpty_def delete_h_def keyExistsOrThrow_def
  sink_case minChild_def minChildLoop.simps ascending_def size_h_def

subsection \<open>Reachable states satisfy the invariant\<close>

lemma constructor_inv:
  assumes "constructor degree maxSize c = Inr h"
  shows "heap_inv h" "compare h = c" "sz h = 0"
proof -
  have m: "\<not> maxSize \<le> 0" using assms by (auto simp: constructor_def split: if_splits)
  have h: "h = \<lparr>sz = 0, N = max (max 2 degree + 1) maxSize, D = max 2 degree,
        child = (\<lambda>s. if 0 \<le> s \<and> s < max (max 2 degree + 1) maxSize
                      then Some (s * max 2 degree + 1) else None),
        parent = (\<lambda>s. if 0 \<le> s \<and> s < max (max 2 degree + 1) maxSize
                       then Some ((s - 1) div max 2 degree) else None),
        pm = (\<lambda>s. if 0 \<le> s \<and> s < max (max 2 degree + 1) maxSize then Some (- 1) else None),
        im = (\<lambda>s. if 0 \<le> s \<and> s < max (max 2 degree + 1) maxSize then Some (- 1) else None),
        values_h = (\<lambda>s. if 0 \<le> s \<and> s < max (max 2 degree + 1) maxSize
                         then Some None else None),
        compare = c\<rparr>"
    using assms m by (simp add: constructor_closed)
  show "compare h = c" "sz h = 0" by (simp_all add: h)
  have "topology h" by (simp add: topology_def h)
  moreover have "occupied h" by (simp add: occupied_def h)
  moreover have "vacant h" by (simp add: vacant_def h)
  moreover have "heapOrder h" using \<open>sz h = 0\<close> by (auto simp: heapOrder_def)
  ultimately show "heap_inv h" by (simp add: heap_inv_def)
qed

lemma less_h_returns:
  assumes occ: "occupied h" and "0 \<le> i" "i < sz h" "0 \<le> j" "j < sz h"
  shows "\<exists>b. less_h h i j = Some b"
proof -
  obtain a where "slotValue h i = Some a" using slotValue_occupied[OF occ assms(2,3)] by blast
  moreover obtain b where "slotValue h j = Some b"
    using slotValue_occupied[OF occ assms(4,5)] by blast
  ultimately show ?thesis by (simp add: less_h_slotValue)
qed

lemma isMinHeapFrom_returns:
  assumes top: "topology h" and occ: "occupied h"
  shows "0 \<le> i \<Longrightarrow> i < sz h \<Longrightarrow> i < j \<Longrightarrow> to \<le> sz h \<Longrightarrow> \<exists>b. isMinHeapFrom h i j to = Some b"
proof (induction "nat (sz h - i)" arbitrary: i j to rule: less_induct)
  case less
  note outer = less.hyps and i = less.prems(1,2)
  have d: "1 \<le> D h" using top unfolding topology_def by simp
  have inner: "i < j \<Longrightarrow> \<exists>b. isMinHeapFrom h i j to = Some b" for j
  proof (induction "nat (to - j)" arbitrary: j)
    case 0
    then have "\<not> j < to" by simp
    then have "isMinHeapFrom h i j to = Some True" by (subst isMinHeapFrom.simps) simp
    then show ?case by blast
  next
    case (Suc n)
    then have jt: "j < to" by simp
    then have j: "0 \<le> j" "j < sz h" using Suc.prems i less.prems(4) by auto
    obtain b where b: "less_h h i j = Some b" using less_h_returns[OF occ i j] by blast
    have "j < N h" using j occ unfolding occupied_def by simp
    then have ch: "child h j = Some (j * D h + 1)"
      using top j unfolding topology_def by simp
    have "j * 1 \<le> j * D h" using d j(1) by (rule mult_left_mono)
    then have jj: "j < j * D h + 1" by simp
    have m: "nat (sz h - j) < nat (sz h - i)" using Suc.prems j by simp
    obtain r where r: "isMinHeapFrom h j (j * D h + 1) (min (sz h) (j * D h + 1 + D h)) = Some r"
      using outer[OF m j jj, of "min (sz h) (j * D h + 1 + D h)"] by auto
    have n: "n = nat (to - (j + 1))" using Suc.hyps(2) by simp
    obtain q where q: "isMinHeapFrom h i (j + 1) to = Some q"
      using Suc.hyps(1)[OF n] Suc.prems by auto
    have "isMinHeapFrom h i j to = (if \<not> b then Some False else if \<not> r then Some False else Some q)"
      using jt b ch r q by (subst isMinHeapFrom.simps) simp
    then show ?case by (cases b; cases r) auto
  qed
  show ?case using inner[OF less.prems(3)] .
qed

lemma isMinHeap_returns:
  assumes top: "topology h" and occ: "occupied h"
  shows "\<exists>b. isMinHeap h = Some b"
proof -
  have n: "0 < N h" using top unfolding topology_def by simp
  then have ch: "child h 0 = Some 1" using top unfolding topology_def by simp
  show ?thesis
  proof (cases "sz h = 0")
    case True
    have "isMinHeapFrom h 0 1 (min (sz h) (1 + D h)) = Some True"
      using True top by (subst isMinHeapFrom.simps) (simp add: topology_def)
    then have "isMinHeap h = Some True" using ch by (simp add: isMinHeap_def isMinHeapAt_def)
    then show ?thesis by blast
  next
    case False
    then have "0 < sz h" using occ unfolding occupied_def by simp
    from isMinHeapFrom_returns[OF top occ _ this, of 1 "min (sz h) (1 + D h)"]
    obtain b where "isMinHeapFrom h 0 1 (min (sz h) (1 + D h)) = Some b" by auto
    then have "isMinHeap h = Some b" using ch by (simp add: isMinHeap_def isMinHeapAt_def)
    then show ?thesis by blast
  qed
qed

lemma peekMinValue_returns:
  assumes inv: "heap_inv h"
  shows "\<exists>r. peekMinValue h = Some r"
proof (cases "sz h = 0")
  case True
  then show ?thesis by (simp add: peekMinValue_def isNotEmptyOrThrow_def isEmpty_def)
next
  case False
  from root_key[OF inv False] show ?thesis
    using False by (auto simp: peekMinValue_def isNotEmptyOrThrow_def isEmpty_def valueAt_def)
qed

lemma valueOf_returns:
  assumes inv: "heap_inv h"
  shows "\<exists>r. valueOf h ki = Some r"
proof (cases "keyExistsOrThrow h ki")
  case (Inl e)
  then show ?thesis by (simp add: valueOf_def)
next
  case (Inr u)
  from active_slot[OF heap_invD(2,3)[OF inv] keyExists_active[OF Inr]]
  show ?thesis using Inr by (auto simp: valueOf_def valueAt_def)
qed

lemma exec_inv:
  assumes inv: "heap_inv h" and con: "consistent (compare h)"
  shows "\<exists>r h'. exec h call = Some (r, h') \<and> heap_inv h' \<and> compare h' = compare h"
proof (cases call)
  case (Insert k v)
  from insert_h_inv[OF inv con, of k v] show ?thesis
    unfolding Insert by (auto simp: returning_def)
next
  case (Delete k)
  from delete_h_inv[OF inv con, of k] show ?thesis
    unfolding Delete by (auto simp: returning_def)
next
  case (Update k v)
  from update_h_inv[OF inv con, of k v] show ?thesis
    unfolding Update by (auto simp: returning_def)
next
  case (Decrease k v)
  from decrease_inv[OF inv con, of k v] show ?thesis
    unfolding Decrease by (auto simp: returning_def)
next
  case (Increase k v)
  from increase_inv[OF inv con, of k v] show ?thesis
    unfolding Increase by (auto simp: returning_def)
next
  case PollMinKeyIndex
  from pollMinKeyIndex_inv[OF inv con] show ?thesis
    unfolding PollMinKeyIndex by (auto simp: returning_def)
next
  case PollMinValue
  from pollMinValue_inv[OF inv con] show ?thesis
    unfolding PollMinValue by (auto simp: returning_def)
next
  case PeekMinKeyIndex
  then show ?thesis using inv by simp
next
  case PeekMinValue
  from peekMinValue_returns[OF inv] show ?thesis
    unfolding PeekMinValue using inv by auto
next
  case (Contains k)
  then show ?thesis using inv by simp
next
  case (ValueOf k)
  from valueOf_returns[OF inv, of k] show ?thesis
    unfolding ValueOf using inv by auto
next
  case Size
  then show ?thesis using inv by simp
next
  case IsEmpty
  then show ?thesis using inv by simp
next
  case IsMinHeap
  from isMinHeap_returns[OF heap_invD(1,2)[OF inv]] show ?thesis
    unfolding IsMinHeap using inv by auto
qed

lemma reachable_inv:
  assumes "reachable c h" "consistent c"
  shows "heap_inv h \<and> compare h = c"
  using assms
proof (induction rule: reachable.induct)
  case (fresh degree maxSize h)
  then show ?case using constructor_inv by blast
next
  case (step h call r h')
  then have "heap_inv h" "consistent (compare h)" by simp_all
  from exec_inv[OF this, of call] step show ?case by auto
qed

lemma reachable_after:
  "reachable c h \<Longrightarrow> after h cs = Some h' \<Longrightarrow> reachable c h'"
proof (induction cs arbitrary: h)
  case Nil
  then show ?case by simp
next
  case (Cons a cs)
  from Cons.prems(2) obtain r h1 where "exec h a = Some (r, h1)" "after h1 cs = Some h'"
    by (auto split: bind_splits)
  then show ?case using Cons.IH reachable.step[OF Cons.prems(1)] by blast
qed

lemma consistent_ascending: "consistent ascending"
  by (auto simp: consistent_def ascending_def)

lemmas run_defs = eval_defs returning_def update_h_def decrease_def increase_def
  keyExistsAndValueNotNullOrThrow_def lessValue_def pollMinKeyIndex_def valueOf_def
  slotValue_def

lemma sample_heap_reachable: "reachable ascending sample_heap"
proof -
  have c: "constructor 3 10 ascending = Inr (projr (constructor 3 10 ascending))"
    by (simp add: constructor_closed)
  have "\<exists>h. after (projr (constructor 3 10 ascending))
     [Insert 0 (Some 50), Insert 1 (Some 20), Insert 2 (Some 30)] = Some h"
    by (simp add: constructor_closed run_defs)
  then have "after (projr (constructor 3 10 ascending))
     [Insert 0 (Some 50), Insert 1 (Some 20), Insert 2 (Some 30)] = Some sample_heap"
    by (auto simp: sample_heap_def)
  then show ?thesis using reachable_after[OF reachable.fresh[OF c]] by blast
qed

lemma full_heap_reachable: "reachable ascending full_heap"
proof -
  have c: "constructor 2 1 ascending = Inr (projr (constructor 2 1 ascending))"
    by (simp add: constructor_closed)
  have "\<exists>h. after (projr (constructor 2 1 ascending))
     [Insert 0 (Some 5), Insert 1 (Some 7), Insert 2 (Some 6)] = Some h"
    by (simp add: constructor_closed run_defs)
  then have "after (projr (constructor 2 1 ascending))
     [Insert 0 (Some 5), Insert 1 (Some 7), Insert 2 (Some 6)] = Some full_heap"
    by (auto simp: full_heap_def)
  then show ?thesis using reachable_after[OF reachable.fresh[OF c]] by blast
qed

lemma sample_heap_facts:
  "sz sample_heap = 3" "N sample_heap = 10" "D sample_heap = 3"
  "child sample_heap 0 = Some 1"
  "slotValue sample_heap 0 = Some 20" "slotValue sample_heap 1 = Some 50"
  "contains sample_heap 0 = Inr True" "values_h sample_heap 0 = Some (Some 50)"
  "parent sample_heap 1 = Some 0" "minChild sample_heap 0 = Some (- 1)"
  by (simp_all add: sample_heap_def constructor_closed run_defs)

lemma full_heap_facts:
  "sz full_heap = 3" "N full_heap = 3" "contains full_heap 1 = Inr True"
  by (simp_all add: full_heap_def constructor_closed run_defs)

subsection \<open>The comparator contract cannot be dropped\<close>

text \<open>With \<open>always_less\<close> as comparator, on a heap of degree 2 and capacity 3:
  \<^verbatim>\<open>insert(0, 1)\<close>, \<^verbatim>\<open>insert(1, 2)\<close>, \<^verbatim>\<open>delete(0)\<close>. The delete removes the key in the last
  slot, and its \<^verbatim>\<open>swim\<close> then moves the removed key back to the root. Afterwards the size is
  1, key 1 is active with position 1, which is no occupied slot, and slot 0 holds key 0, which
  is not active. So the statements about reachable states below are made for comparators
  that meet the contract, as the specification requires of the caller.\<close>

lemma contract_needed:
  "(case constructor 2 3 always_less of
      Inl e \<Rightarrow> None
    | Inr h0 \<Rightarrow>
        do { (r1, h1) \<leftarrow> insert_h h0 0 (Some 1);
             (r2, h2) \<leftarrow> insert_h h1 1 (Some 2);
             (r3, h3) \<leftarrow> delete_h h2 0;
             Some (r3, sz h3, contains h3 1, pm h3 1, im h3 0, contains h3 0) }) =
   Some (Inr 1, 1, Inr True, Some 1, Some 0, Inr False)"
  by (simp add: constructor_closed run_defs always_less_def)

section \<open>The claims\<close>

text \<open>Claim C1 (heap order). In every state reachable from a freshly constructed heap by public
  calls, with a comparator that meets the contract, for every occupied slot \<open>s < sz\<close> and
  every child slot \<open>ch\<close> of \<open>s\<close> with \<open>ch < sz\<close>, both slots hold values and the value of
  \<open>s\<close> compares less than or equal to the value of \<open>ch\<close>.\<close>

theorem heap_order_reachable:
  assumes "reachable c h" "consistent c" "0 \<le> s" "s < sz h" "isChild h s ch" "ch < sz h"
  shows "\<exists>a b. slotValue h s = Some a \<and> slotValue h ch = Some b \<and> c a b \<le> 0"
proof -
  from reachable_inv[OF assms(1,2)] have inv: "heap_inv h" and cmp: "compare h = c" by simp_all
  note top = heap_invD(1)[OF inv] and occ = heap_invD(2)[OF inv] and ho = heap_invD(4)[OF inv]
  have "s < N h" using assms(4) occ unfolding occupied_def by simp
  then have "child h s = Some (s * D h + 1)" using top assms(3) unfolding topology_def by simp
  then have rng: "s * D h + 1 \<le> ch" "ch < s * D h + 1 + D h"
    using assms(5) unfolding isChild_def by auto
  have d: "1 \<le> D h" using top unfolding topology_def by simp
  have "parentOf h ch = s" unfolding parentOf_def by (rule child_range_parent1[OF d rng])
  moreover have "0 \<le> s * D h" using assms(3) d by simp
  then have "0 < ch" using rng by simp
  ultimately have "lesseq h s ch" using ho assms(6) unfolding heapOrder_def by auto
  then show ?thesis unfolding lesseq_def cmp .
qed

theorem heap_order_reachable_witness:
  "reachable ascending sample_heap \<and> consistent ascending \<and> (0::int) \<le> 0 \<and> 0 < sz sample_heap \<and>
   isChild sample_heap 0 1 \<and> 1 < sz sample_heap \<and>
   (\<exists>a b. slotValue sample_heap 0 = Some a \<and> slotValue sample_heap 1 = Some b \<and> ascending a b \<le> 0)"
proof -
  have a: "0 < sz sample_heap" "1 < sz sample_heap" by (simp_all add: sample_heap_facts)
  have b: "isChild sample_heap 0 1" by (simp add: isChild_def sample_heap_facts)
  from heap_order_reachable[OF sample_heap_reachable consistent_ascending _ a(1) b a(2)]
  show ?thesis using sample_heap_reachable consistent_ascending a b by simp
qed

text \<open>Claim C2 (bijection). In every reachable state, with a comparator that meets the contract:
  every active key has a position, which is an occupied slot holding that key; every occupied
  slot holds an active key whose position is that slot; and every slot from \<open>sz\<close> up to the
  capacity holds the absent sentinel.\<close>

theorem bijection_reachable:
  assumes "reachable c h" "consistent c"
  shows "(\<forall>k. contains h k = Inr True \<longrightarrow>
            (\<exists>s. pm h k = Some s \<and> 0 \<le> s \<and> s < sz h \<and> im h s = Some k)) \<and>
         (\<forall>s. 0 \<le> s \<and> s < sz h \<longrightarrow>
            (\<exists>k. im h s = Some k \<and> contains h k = Inr True \<and> pm h k = Some s)) \<and>
         (\<forall>s. sz h \<le> s \<and> s < N h \<longrightarrow> im h s = Some (- 1))"
proof -
  from reachable_inv[OF assms] have inv: "heap_inv h" by simp
  note occ = heap_invD(2)[OF inv] and vac = heap_invD(3)[OF inv]
  have a: "\<forall>k. contains h k = Inr True \<longrightarrow>
            (\<exists>s. pm h k = Some s \<and> 0 \<le> s \<and> s < sz h \<and> im h s = Some k)"
  proof (intro allI impI)
    fix k assume "contains h k = Inr True"
    then have "0 \<le> k" "k < N h" "pm h k \<noteq> Some (- 1)"
      by (auto simp: contains_def keyInBoundsOrThrow_def split: if_splits)
    from active_slot[OF occ vac this]
    show "\<exists>s. pm h k = Some s \<and> 0 \<le> s \<and> s < sz h \<and> im h s = Some k" by blast
  qed
  have b: "\<forall>s. 0 \<le> s \<and> s < sz h \<longrightarrow>
            (\<exists>k. im h s = Some k \<and> contains h k = Inr True \<and> pm h k = Some s)"
  proof (intro allI impI)
    fix s assume "0 \<le> s \<and> s < sz h"
    then obtain k v where k: "im h s = Some k" "0 \<le> k" "k < N h" "pm h k = Some s"
      using occ by (auto elim: occupiedD)
    moreover have "contains h k = Inr True"
      using k \<open>0 \<le> s \<and> s < sz h\<close> by (simp add: contains_def keyInBoundsOrThrow_def)
    ultimately show "\<exists>k. im h s = Some k \<and> contains h k = Inr True \<and> pm h k = Some s"
      by blast
  qed
  have "\<forall>s. sz h \<le> s \<and> s < N h \<longrightarrow> im h s = Some (- 1)"
    using vac unfolding vacant_def by blast
  with a b show ?thesis by blast
qed

lemma sample_heap_maps:
  "pm sample_heap 0 = Some 1" "im sample_heap 1 = Some 0" "contains sample_heap 0 = Inr True"
  "im sample_heap 5 = Some (- 1)"
  by (simp_all add: sample_heap_def constructor_closed run_defs)

theorem bijection_reachable_witness:
  "reachable ascending sample_heap \<and> consistent ascending \<and>
   contains sample_heap 0 = Inr True \<and>
   (\<exists>s. pm sample_heap 0 = Some s \<and> 0 \<le> s \<and> s < sz sample_heap \<and> im sample_heap s = Some 0) \<and>
   (0::int) \<le> 1 \<and> 1 < sz sample_heap \<and>
   (\<exists>k. im sample_heap 1 = Some k \<and> contains sample_heap k = Inr True \<and> pm sample_heap k = Some 1) \<and>
   sz sample_heap \<le> 5 \<and> 5 < N sample_heap \<and> im sample_heap 5 = Some (- 1)"
proof -
  note b = bijection_reachable[OF sample_heap_reachable consistent_ascending]
  have f: "contains sample_heap 0 = Inr True" "(0::int) \<le> 1 \<and> 1 < sz sample_heap"
    "sz sample_heap \<le> 5 \<and> 5 < N sample_heap"
    by (simp_all add: sample_heap_facts)
  from b f show ?thesis
    using sample_heap_reachable consistent_ascending by blast
qed

text \<open>Claim C3 (the diagnostic check). On the degree-3 heap of capacity 10 with the ascending
  comparator, after \<^verbatim>\<open>insert(0, 10)\<close> and \<^verbatim>\<open>insert(1, 10)\<close> both inserts return, the heap
  holds two equal values in slots 0 and 1, and \<^verbatim>\<open>isMinHeap()\<close> returns \<^verbatim>\<open>false\<close>:
  \<^verbatim>\<open>isMinHeapAt\<close> tests \<^verbatim>\<open>!less(i, j)\<close>, which rejects a child equal to its parent.\<close>

theorem isMinHeap_rejects_equal_values:
  "(case constructor 3 10 ascending of
      Inl e \<Rightarrow> None
    | Inr h0 \<Rightarrow>
        do { (r1, h1) \<leftarrow> insert_h h0 0 (Some 10);
             (r2, h2) \<leftarrow> insert_h h1 1 (Some 10);
             b \<leftarrow> isMinHeap h2;
             Some (r1, r2, sz h2, slotValue h2 0, slotValue h2 1, b) }) =
   Some (Inr (), Inr (), 2, Some 10, Some 10, False)"
  by (simp add: constructor_closed run_defs isMinHeap_def isMinHeapAt_def isMinHeapFrom.simps)

text \<open>Claim C4 (construction), as amended. Construction throws \<^verbatim>\<open>maxSize <= 0\<close>
  (\<open>InvalidCapacity\<close>) exactly when \<open>maxSize \<le> 0\<close>. Otherwise the heap is empty, the degree
  is \<open>D = max 2 degree\<close>, the capacity is \<open>N = max (D + 1) maxSize\<close> with that effective
  degree \<open>D\<close>, and for every slot or key \<open>s\<close> in \<open>[0, N)\<close>: \<open>parent s = (s - 1) div D\<close>,
  \<open>child s = s * D + 1\<close>, position and inverse entries are \<open>-1\<close> and the value is
  \<^verbatim>\<open>null\<close>; nothing is stored outside \<open>[0, N)\<close>.\<close>

theorem constructor_spec:
  "(constructor degree maxSize c = Inl InvalidCapacity \<longleftrightarrow> maxSize \<le> 0) \<and>
   (0 < maxSize \<longrightarrow>
      (\<exists>h. constructor degree maxSize c = Inr h \<and> sz h = 0 \<and> compare h = c \<and>
           D h = max 2 degree \<and> N h = max (D h + 1) maxSize \<and>
           (\<forall>s. 0 \<le> s \<and> s < N h \<longrightarrow>
                parent h s = Some ((s - 1) div D h) \<and> child h s = Some (s * D h + 1) \<and>
                pm h s = Some (- 1) \<and> im h s = Some (- 1) \<and> values_h h s = Some None) \<and>
           (\<forall>s. \<not> (0 \<le> s \<and> s < N h) \<longrightarrow>
                parent h s = None \<and> child h s = None \<and>
                pm h s = None \<and> im h s = None \<and> values_h h s = None)))"
proof (cases "maxSize \<le> 0")
  case True
  then show ?thesis by (simp add: constructor_closed)
next
  case False
  then show ?thesis by (simp add: constructor_closed)
qed

theorem constructor_spec_witness:
  "constructor 3 0 ascending = Inl InvalidCapacity \<and> (0::int) \<le> 0 \<and> (0::int) < 10 \<and>
   (\<exists>h. constructor 3 10 ascending = Inr h \<and> sz h = 0 \<and> compare h = ascending \<and>
        D h = max 2 3 \<and> N h = max (D h + 1) 10 \<and>
        ((0::int) \<le> 4 \<and> 4 < N h) \<and>
        parent h 4 = Some ((4 - 1) div D h) \<and> child h 4 = Some (4 * D h + 1) \<and>
        pm h 4 = Some (- 1) \<and> im h 4 = Some (- 1) \<and> values_h h 4 = Some None \<and>
        \<not> ((0::int) \<le> 10 \<and> 10 < N h) \<and>
        parent h 10 = None \<and> child h 10 = None \<and>
        pm h 10 = None \<and> im h 10 = None \<and> values_h h 10 = None)"
proof -
  have a: "constructor 3 0 ascending = Inl InvalidCapacity"
    using constructor_spec[of 3 0 ascending] by simp
  have "(0::int) < 10" by simp
  with constructor_spec[of 3 10 ascending] obtain h where
    h: "constructor 3 10 ascending = Inr h" "sz h = 0" "compare h = ascending"
    "D h = max 2 3" "N h = max (D h + 1) 10"
    "\<forall>s. 0 \<le> s \<and> s < N h \<longrightarrow>
                parent h s = Some ((s - 1) div D h) \<and> child h s = Some (s * D h + 1) \<and>
                pm h s = Some (- 1) \<and> im h s = Some (- 1) \<and> values_h h s = Some None"
    "\<forall>s. \<not> (0 \<le> s \<and> s < N h) \<longrightarrow>
                parent h s = None \<and> child h s = None \<and>
                pm h s = None \<and> im h s = None \<and> values_h h s = None"
    by blast
  have n: "(0::int) \<le> 4 \<and> 4 < N h" "\<not> ((0::int) \<le> 10 \<and> 10 < N h)" using h(4,5) by simp_all
  from h(6) n(1) have p: "parent h 4 = Some ((4 - 1) div D h) \<and> child h 4 = Some (4 * D h + 1) \<and>
                pm h 4 = Some (- 1) \<and> im h 4 = Some (- 1) \<and> values_h h 4 = Some None"
    by blast
  from h(7) n(2) have q: "parent h 10 = None \<and> child h 10 = None \<and>
                pm h 10 = None \<and> im h 10 = None \<and> values_h h 10 = None"
    by blast
  show ?thesis using a h(1-5) n p q by auto
qed

text \<open>The claim as written takes the capacity to be \<open>max (degree + 1) maxSize\<close> with the
  degree that was passed in. With \<open>degree = 1\<close> and \<open>maxSize = 1\<close> construction succeeds with
  capacity 3, not 2.\<close>

theorem constructor_capacity_counterexample:
  "constructor 1 1 ascending \<noteq> Inl InvalidCapacity \<and>
   N (projr (constructor 1 1 ascending)) = 3 \<and>
   N (projr (constructor 1 1 ascending)) \<noteq> max (1 + 1) 1"
  by (simp add: constructor_closed)

text \<open>Claim C5 (decrease and increase). Let \<open>k\<close> be an active key with stored value \<open>cur\<close>.
  \<^verbatim>\<open>decrease(k, v)\<close> with \<open>v\<close> greater than or equal to \<open>cur\<close> returns leaving the whole state
  unchanged. \<^verbatim>\<open>increase(k, v)\<close> with \<open>v\<close> less than or equal to \<open>cur\<close> does the same, for a
  comparator that meets the contract (the code tests \<^verbatim>\<open>compare(cur, v) < 0\<close>). When \<open>v\<close>
  compares less than \<open>cur\<close>, \<^verbatim>\<open>decrease\<close> stores \<open>v\<close> and swims the key's slot; when \<open>cur\<close>
  compares less than \<open>v\<close>, \<^verbatim>\<open>increase\<close> stores \<open>v\<close> and sinks the key's slot.\<close>

theorem decrease_increase_monotone:
  assumes "contains h k = Inr True" "values_h h k = Some (Some cur)"
  shows "(0 \<le> compare h v cur \<longrightarrow> decrease h k (Some v) = Some (Inr (), h)) \<and>
         (consistent (compare h) \<and> compare h v cur \<le> 0 \<longrightarrow>
            increase h k (Some v) = Some (Inr (), h)) \<and>
         (compare h v cur < 0 \<longrightarrow>
            decrease h k (Some v) =
              do { i \<leftarrow> pm h k;
                   h' \<leftarrow> swim (h\<lparr>values_h := (values_h h)(k \<mapsto> Some v)\<rparr>) i;
                   Some (Inr (), h') }) \<and>
         (compare h cur v < 0 \<longrightarrow>
            increase h k (Some v) =
              do { i \<leftarrow> pm h k;
                   h' \<leftarrow> sink (h\<lparr>values_h := (values_h h)(k \<mapsto> Some v)\<rparr>) i;
                   Some (Inr (), h') })"
proof -
  have ok: "keyExistsAndValueNotNullOrThrow h k (Some v) = Inr ()"
    using assms(1)
    by (simp add: keyExistsAndValueNotNullOrThrow_def keyExistsOrThrow_def valueNotNullOrThrow_def)
  have va: "valueAt h k = Some cur" using assms(2) by (simp add: valueAt_def)
  have "consistent (compare h) \<Longrightarrow> compare h v cur \<le> 0 \<Longrightarrow> \<not> compare h cur v < 0"
    unfolding consistent_def by (metis not_less)
  then show ?thesis
    using ok va by (auto simp: decrease_def increase_def lessValue_def)
qed

theorem decrease_increase_monotone_witness:
  "contains sample_heap 0 = Inr True \<and> values_h sample_heap 0 = Some (Some 50) \<and>
   0 \<le> compare sample_heap 60 50 \<and>
   decrease sample_heap 0 (Some 60) = Some (Inr (), sample_heap) \<and>
   consistent (compare sample_heap) \<and> compare sample_heap 40 50 \<le> 0 \<and>
   increase sample_heap 0 (Some 40) = Some (Inr (), sample_heap) \<and>
   compare sample_heap 40 50 < 0 \<and>
   decrease sample_heap 0 (Some 40) =
     do { i \<leftarrow> pm sample_heap 0;
          h' \<leftarrow> swim (sample_heap\<lparr>values_h := (values_h sample_heap)(0 \<mapsto> Some 40)\<rparr>) i;
          Some (Inr (), h') } \<and>
   compare sample_heap 50 60 < 0 \<and>
   increase sample_heap 0 (Some 60) =
     do { i \<leftarrow> pm sample_heap 0;
          h' \<leftarrow> sink (sample_heap\<lparr>values_h := (values_h sample_heap)(0 \<mapsto> Some 60)\<rparr>) i;
          Some (Inr (), h') }"
proof -
  have c: "compare sample_heap = ascending"
    using reachable_inv[OF sample_heap_reachable consistent_ascending] by simp
  have f: "0 \<le> compare sample_heap 60 50" "compare sample_heap 40 50 \<le> 0"
    "compare sample_heap 40 50 < 0" "compare sample_heap 50 60 < 0"
    "consistent (compare sample_heap)"
    unfolding c by (simp_all add: ascending_def consistent_ascending)
  note t = decrease_increase_monotone[OF sample_heap_facts(7,8)]
  from t[of 60] t[of 40] f sample_heap_facts(7,8) show ?thesis by blast
qed

text \<open>Claim C6 (round trip). Inserting keys 0, 1, 2 with values 50, 20, 30 into a fresh
  degree-3 heap of capacity 10 with the ascending comparator, then calling
  \<^verbatim>\<open>pollMinValue\<close> three times, returns 20, 30, 50 in that order and leaves the heap empty,
  with size 0.\<close>

theorem round_trip_degree3:
  "(case constructor 3 10 ascending of
      Inl e \<Rightarrow> None
    | Inr h0 \<Rightarrow>
        do { (r1, h1) \<leftarrow> insert_h h0 0 (Some 50);
             (r2, h2) \<leftarrow> insert_h h1 1 (Some 20);
             (r3, h3) \<leftarrow> insert_h h2 2 (Some 30);
             (a, h4) \<leftarrow> pollMinValue h3;
             (b, h5) \<leftarrow> pollMinValue h4;
             (c, h6) \<leftarrow> pollMinValue h5;
             Some ([r1, r2, r3], [a, b, c], size_h h6, isEmpty h6) }) =
   Some ([Inr (), Inr (), Inr ()], [Inr 20, Inr 30, Inr 50], 0, True)"
  by (simp add: constructor_closed eval_defs)

text \<open>Claim C7 (degree-2 equivalence). For every capacity, every comparator and every sequence
  of calls, a \<^verbatim>\<open>MinIndexedBinaryHeap\<close> and a \<^verbatim>\<open>MinIndexedDHeap\<close> of degree 2 either both
  fail to construct with the same error, or give the same results for all the
  \<^verbatim>\<open>peekMinKeyIndex\<close> and \<^verbatim>\<open>peekMinValue\<close> calls of the sequence.\<close>

theorem binary_heap_same_peeks:
  "map_sum id (\<lambda>h. peeks h calls) (constructorBinary maxSize c) =
   map_sum id (\<lambda>h. peeks h calls) (constructor 2 maxSize c)"
  by (simp add: constructorBinary_def)

text \<open>Claim C8 (termination). In every reachable state, with a comparator that meets the
  contract, every public call returns (normally or by throwing). The loops are bounded as
  the claim says: the parent of an occupied slot \<open>i > 0\<close> is a slot strictly below \<open>i\<close>, so
  \<^verbatim>\<open>swim\<close> moves toward the root; and \<^verbatim>\<open>minChild(i)\<close> returns either \<open>-1\<close> or a slot strictly
  above \<open>i\<close> and below \<open>sz\<close>, so \<^verbatim>\<open>sink\<close> moves toward the leaves.\<close>

theorem operations_return:
  assumes "reachable c h" "consistent c"
  shows "(\<exists>r h'. exec h call = Some (r, h')) \<and>
         (\<forall>i. 0 < i \<and> i < sz h \<longrightarrow> (\<exists>p. parent h i = Some p \<and> 0 \<le> p \<and> p < i)) \<and>
         (\<forall>i. 0 \<le> i \<and> i < sz h \<longrightarrow>
            (\<exists>j. minChild h i = Some j \<and> (j = - 1 \<or> (i < j \<and> j < sz h))))"
proof -
  from reachable_inv[OF assms] have inv: "heap_inv h" and cmp: "compare h = c" by simp_all
  note top = heap_invD(1)[OF inv] and occ = heap_invD(2)[OF inv]
  have con: "consistent (compare h)" using assms(2) cmp by simp
  have a: "\<exists>r h'. exec h call = Some (r, h')"
    using exec_inv[OF inv con, of call] by blast
  have b: "\<forall>i. 0 < i \<and> i < sz h \<longrightarrow> (\<exists>p. parent h i = Some p \<and> 0 \<le> p \<and> p < i)"
  proof (intro allI impI)
    fix i assume i: "0 < i \<and> i < sz h"
    then have "i < N h" using occ unfolding occupied_def by simp
    then have "parent h i = Some (parentOf h i)"
      using top i unfolding topology_def parentOf_def by simp
    then show "\<exists>p. parent h i = Some p \<and> 0 \<le> p \<and> p < i"
      using parentOf_less[OF top, of i] i by simp
  qed
  have "\<forall>i. 0 \<le> i \<and> i < sz h \<longrightarrow>
            (\<exists>j. minChild h i = Some j \<and> (j = - 1 \<or> (i < j \<and> j < sz h)))"
  proof (intro allI impI)
    fix i assume i: "0 \<le> i \<and> i < sz h"
    then obtain r where r: "minChild h i = Some r"
      "r = - 1 \<or> (0 < r \<and> r < sz h \<and> parentOf h r = i)"
      using minChild_spec[OF con top occ, of i] by blast
    have "r = - 1 \<or> (i < r \<and> r < sz h)"
      using r(2) parentOf_less[OF top, of r] by auto
    then show "\<exists>j. minChild h i = Some j \<and> (j = - 1 \<or> (i < j \<and> j < sz h))"
      using r(1) by blast
  qed
  with a b show ?thesis by blast
qed

theorem operations_return_witness:
  "reachable ascending sample_heap \<and> consistent ascending \<and>
   (\<exists>r h'. exec sample_heap PollMinValue = Some (r, h')) \<and>
   (0::int) < 1 \<and> 1 < sz sample_heap \<and>
   (\<exists>p. parent sample_heap 1 = Some p \<and> 0 \<le> p \<and> p < 1) \<and>
   (0::int) \<le> 0 \<and> 0 < sz sample_heap \<and>
   (\<exists>j. minChild sample_heap 0 = Some j \<and> (j = - 1 \<or> (0 < j \<and> j < sz sample_heap)))"
proof -
  note t = operations_return[OF sample_heap_reachable consistent_ascending, of PollMinValue]
  have f: "(0::int) < 1 \<and> 1 < sz sample_heap" "(0::int) \<le> 0 \<and> 0 < sz sample_heap"
    by (simp_all add: sample_heap_facts)
  from t f show ?thesis
    using sample_heap_reachable consistent_ascending by blast
qed

text \<open>Claim C9 (duplicate insert). For every key for which \<^verbatim>\<open>contains\<close> is true and every
  value, \<^verbatim>\<open>insert\<close> throws \<^verbatim>\<open>index already exists\<close> (\<open>DuplicateKey\<close>) and the state at the
  throw is the state before the call: size, both maps and the value store are untouched.\<close>

theorem insert_duplicate_unchanged:
  assumes "contains h ki = Inr True"
  shows "insert_h h ki v = Some (Inl DuplicateKey, h)"
  using assms by (simp add: insert_h_def)

theorem insert_duplicate_unchanged_witness:
  "contains sample_heap 0 = Inr True \<and>
   insert_h sample_heap 0 (Some 7) = Some (Inl DuplicateKey, sample_heap)"
  using insert_duplicate_unchanged[OF sample_heap_facts(7), of "Some 7"] sample_heap_facts(7)
  by blast

text \<open>Claim C10 (insert into a full heap). In every reachable state, with a comparator that
  meets the contract, the size is at most the capacity. When it equals the capacity, every
  \<^verbatim>\<open>insert\<close> fails and leaves the state unchanged: a key outside \<open>[0, N)\<close> throws
  \<open>KeyOutOfBounds\<close>, and every key inside is already active and throws \<open>DuplicateKey\<close>.\<close>

theorem insert_when_full:
  assumes "reachable c h" "consistent c"
  shows "sz h \<le> N h \<and>
         (sz h = N h \<longrightarrow>
            (\<forall>ki v. (ki < 0 \<or> N h \<le> ki \<longrightarrow> insert_h h ki v = Some (Inl KeyOutOfBounds, h)) \<and>
                    (0 \<le> ki \<and> ki < N h \<longrightarrow>
                       contains h ki = Inr True \<and>
                       insert_h h ki v = Some (Inl DuplicateKey, h))))"
proof -
  from reachable_inv[OF assms] have inv: "heap_inv h" by simp
  note occ = heap_invD(2)[OF inv]
  have le: "sz h \<le> N h" using occ unfolding occupied_def by simp
  have full: "sz h = N h \<Longrightarrow> 0 \<le> ki \<and> ki < N h \<Longrightarrow> contains h ki = Inr True" for ki
  proof -
    assume f: "sz h = N h" and k: "0 \<le> ki \<and> ki < N h"
    then have "ki \<in> keys h" using full_keys[OF occ f] by simp
    then obtain s where "0 \<le> s" "pm h ki = Some s" using keys_occupied[OF occ] by blast
    then have "pm h ki \<noteq> Some (- 1)" by auto
    then show "contains h ki = Inr True"
      using k by (simp add: contains_def keyInBoundsOrThrow_def)
  qed
  have out: "ki < 0 \<or> N h \<le> ki \<Longrightarrow> insert_h h ki v = Some (Inl KeyOutOfBounds, h)" for ki v
    by (auto simp: insert_h_def contains_def keyInBoundsOrThrow_def)
  have dup: "contains h ki = Inr True \<Longrightarrow> insert_h h ki v = Some (Inl DuplicateKey, h)" for ki v
    by (simp add: insert_h_def)
  show ?thesis using le full out dup by blast
qed

theorem insert_when_full_witness:
  "reachable ascending full_heap \<and> consistent ascending \<and> sz full_heap \<le> N full_heap \<and>
   sz full_heap = N full_heap \<and>
   ((5::int) < 0 \<or> N full_heap \<le> 5) \<and>
   insert_h full_heap 5 (Some 1) = Some (Inl KeyOutOfBounds, full_heap) \<and>
   (0::int) \<le> 1 \<and> 1 < N full_heap \<and> contains full_heap 1 = Inr True \<and>
   insert_h full_heap 1 (Some 1) = Some (Inl DuplicateKey, full_heap)"
proof -
  note t = insert_when_full[OF full_heap_reachable consistent_ascending]
  have f: "sz full_heap = N full_heap" "(5::int) < 0 \<or> N full_heap \<le> 5"
    "(0::int) \<le> 1 \<and> 1 < N full_heap"
    by (simp_all add: full_heap_facts)
  from t f show ?thesis
    using full_heap_reachable consistent_ascending by blast
qed

end
